theory Spec2Isabelle
  imports Main "HOL-Library.Word" "HOL-Library.Sublist"
begin

section \<open>JavaScript strings\<close>

text \<open>
  A JavaScript string is a sequence of 16-bit code units (UTF-16). \<open>s.length\<close>,
  \<open>s.slice\<close> and \<open>===\<close> work on code units. The spread \<open>[...s]\<close> runs the string
  iterator, which yields one element per code point: a leading surrogate
  (D800..DBFF) directly followed by a trailing surrogate (DC00..DFFF) is one
  element of two units, every other unit is an element of its own.
  \<open>xs.join('')\<close> concatenates the elements again.
\<close>

type_synonym jsstring = "16 word list"

definition is_lead :: "16 word \<Rightarrow> bool" where
  "is_lead c = (0xD800 \<le> c \<and> c \<le> 0xDBFF)"

definition is_trail :: "16 word \<Rightarrow> bool" where
  "is_trail c = (0xDC00 \<le> c \<and> c \<le> 0xDFFF)"

fun spread :: "jsstring \<Rightarrow> jsstring list" where
  "spread [] = []"
| "spread [c] = [[c]]"
| "spread (c # d # rest) =
     (if is_lead c \<and> is_trail d then [c, d] # spread rest
      else [c] # spread (d # rest))"

definition join :: "jsstring list \<Rightarrow> jsstring" where
  "join xs = concat xs"

text \<open>
  \<open>Array.prototype.slice\<close> on integer arguments: a negative index counts from
  the end, every index is clamped into \<open>0..length\<close>, and an end before the start
  gives the empty array.
\<close>

definition rel_index :: "int \<Rightarrow> nat \<Rightarrow> nat" where
  "rel_index k n = (if k < 0 then nat (max (int n + k) 0) else min (nat k) n)"

definition js_slice_from :: "'a list \<Rightarrow> int \<Rightarrow> 'a list" where
  "js_slice_from xs start = drop (rel_index start (length xs)) xs"

definition js_slice :: "'a list \<Rightarrow> int \<Rightarrow> int \<Rightarrow> 'a list" where
  "js_slice xs start fin =
     (let n = length xs; k = rel_index start n; e = rel_index fin n
      in take (e - k) (drop k xs))"

section \<open>Operations on the text (lib/ot)\<close>

text \<open>
  \<open>Op\<close> is the tagged union of the source. \<open>pos\<close> and \<open>len\<close> are JavaScript
  numbers; the model takes the integers among them.
\<close>

datatype Op = Insert int jsstring | Delete int int

fun applyOp :: "jsstring \<Rightarrow> Op \<Rightarrow> jsstring" where
  "applyOp s (Insert p t) =
     (let head = join (js_slice (spread s) 0 p);
          tail = join (js_slice_from (spread s) p)
      in head @ t @ tail)"
| "applyOp s (Delete p n) =
     (let head = join (js_slice (spread s) 0 p);
          tail = join (js_slice_from (spread s) (p + n))
      in head @ tail)"

fun applyOps :: "jsstring \<Rightarrow> Op list \<Rightarrow> jsstring" where
  "applyOps s [] = s"
| "applyOps s (x # rest) = applyOps (applyOp s x) rest"

text \<open>The two scanning loops of \<open>diffToOps\<close>, on the arrays of code points.\<close>

function scan_prefix :: "jsstring list \<Rightarrow> jsstring list \<Rightarrow> nat \<Rightarrow> nat" where
  "scan_prefix a b i =
     (if i < length a \<and> i < length b \<and> a ! i = b ! i
      then scan_prefix a b (i + 1) else i)"
  by pat_completeness auto
termination
  by (relation "measure (\<lambda>(a, b, i). length a - i)") auto

function scan_suffix :: "jsstring list \<Rightarrow> jsstring list \<Rightarrow> nat \<Rightarrow> nat \<Rightarrow> nat" where
  "scan_suffix a b i j =
     (if j < length a - i \<and> j < length b - i
         \<and> a ! (length a - 1 - j) = b ! (length b - 1 - j)
      then scan_suffix a b i (j + 1) else j)"
  by pat_completeness auto
termination
  by (relation "measure (\<lambda>(a, b, i, j). length a - i - j)") auto

declare scan_prefix.simps [simp del]
declare scan_suffix.simps [simp del]

definition diffToOps :: "jsstring \<Rightarrow> jsstring \<Rightarrow> Op list" where
  "diffToOps before after =
     (if before = after then []
      else
        let a = spread before;
            b = spread after;
            i = scan_prefix a b 0;
            j = scan_suffix a b i 0;
            beforeMid = join (js_slice a (int i) (int (length a) - int j));
            afterMid = join (js_slice b (int i) (int (length b) - int j));
            ops1 = (if length beforeMid > 0
                    then [Delete (int i) (int (length beforeMid))] else []);
            ops2 = (if length afterMid > 0
                    then ops1 @ [Insert (int i) afterMid] else ops1)
        in ops2)"

text \<open>Strings without surrogate code units: every code point is one unit.\<close>

definition no_surrogates :: "jsstring \<Rightarrow> bool" where
  "no_surrogates s = list_all (\<lambda>c. \<not> is_lead c \<and> \<not> is_trail c) s"

text \<open>
  The clamping rule in the words of the specification: \<open>pos := min(pos, |text|)\<close>,
  \<open>len := min(len, |text| - pos)\<close>, lengths counted in code points. \<open>splice\<close> is
  the edit on the array of code points that an operation within the bounds of
  the text denotes.
\<close>

fun nonneg :: "Op \<Rightarrow> bool" where
  "nonneg (Insert p t) = (0 \<le> p)"
| "nonneg (Delete p n) = (0 \<le> p \<and> 0 \<le> n)"

fun clamp_op :: "nat \<Rightarrow> Op \<Rightarrow> Op" where
  "clamp_op m (Insert p t) = Insert (min p (int m)) t"
| "clamp_op m (Delete p n) =
     (let p' = min p (int m) in Delete p' (min n (int m - p')))"

fun in_range :: "nat \<Rightarrow> Op \<Rightarrow> bool" where
  "in_range m (Insert p t) = (0 \<le> p \<and> p \<le> int m)"
| "in_range m (Delete p n) = (0 \<le> p \<and> 0 \<le> n \<and> p + n \<le> int m)"

fun splice :: "jsstring list \<Rightarrow> Op \<Rightarrow> jsstring list" where
  "splice cps (Insert p t) = take (nat p) cps @ [t] @ drop (nat p) cps"
| "splice cps (Delete p n) = take (nat p) cps @ drop (nat p + nat n) cps"

text \<open>
  The transformation table of the specification (section 4.2), the incoming
  operation A against the already applied operation B, for comparison with what
  the client does. Lengths of inserted text are counted in code points;
  \<open>a_first\<close> is the tie-break \<open>author_a < author_b\<close>.
\<close>

definition shift_past_delete :: "int \<Rightarrow> int \<Rightarrow> int \<Rightarrow> int" where
  "shift_past_delete pb lb x =
     (if x \<le> pb then x else if pb + lb \<le> x then x - lb else pb)"

fun spec_transform :: "bool \<Rightarrow> Op \<Rightarrow> Op \<Rightarrow> Op list" where
  "spec_transform a_first (Insert pa ta) (Insert pb tb) =
     (if pa < pb \<or> (pa = pb \<and> a_first) then [Insert pa ta]
      else [Insert (pa + int (length (spread tb))) ta])"
| "spec_transform a_first (Insert pa ta) (Delete pb lb) =
     [Insert (shift_past_delete pb lb pa) ta]"
| "spec_transform a_first (Delete pa la) (Insert pb tb) =
     (if pb \<le> pa then [Delete (pa + int (length (spread tb))) la]
      else if pa + la \<le> pb then [Delete pa la]
      else [Delete pa (pb - pa),
            Delete (pb + int (length (spread tb))) (la - (pb - pa))])"
| "spec_transform a_first (Delete pa la) (Delete pb lb) =
     (let a1 = shift_past_delete pb lb pa;
          a2 = shift_past_delete pb lb (pa + la)
      in if a1 < a2 then [Delete a1 (a2 - a1)] else [])"

definition spec_transform_ops :: "bool \<Rightarrow> Op list \<Rightarrow> Op \<Rightarrow> Op list" where
  "spec_transform_ops a_first xs b = concat (map (\<lambda>a. spec_transform a_first a b) xs)"

section \<open>The pending queue (lib/realtime)\<close>

datatype SelectionDirection = Forward | Backward

record CursorState =
  position :: int
  anchor :: "int option"
  selection_direction :: "SelectionDirection option"

record PendingEdit =
  op_id :: jsstring
  base_rev :: int
  ops :: "Op list"
  cursor_before :: "CursorState option"
  cursor_after :: "CursorState option"
  ts :: "int option"

record PendingQueueSnapshot =
  snap_latestAck :: "int option"
  items :: "PendingEdit list option"

text \<open>
  The queue as a value: the entries of \<open>this.q\<close> in order and \<open>this.latestAck\<close>.
  The objects behind the entries, and which of them are shared, are the subject
  of the store model further down.
\<close>

record PendingQueue =
  q :: "PendingEdit list"
  latestAck :: int

definition empty_queue :: PendingQueue where
  "empty_queue = \<lparr>q = [], latestAck = 0\<rparr>"


text \<open>
  \<open>ack\<close> takes \<open>{opId?, serverSeq?}\<close>. The test \<open>if (opts.opId)\<close> is a truthiness
  test: it fails for an absent identifier and for the empty string.
\<close>

record AckOpts =
  opId :: "jsstring option"
  serverSeq :: "int option"

definition ack :: "PendingQueue \<Rightarrow> AckOpts \<Rightarrow> PendingQueue" where
  "ack pq opts =
     (let pq1 = (case opId opts of
                   Some i \<Rightarrow> if i \<noteq> [] then pq\<lparr>q := filter (\<lambda>entry. op_id entry \<noteq> i) (q pq)\<rparr>
                             else pq
                 | None \<Rightarrow> pq)
      in case serverSeq opts of
           Some n \<Rightarrow> if n > latestAck pq1 then pq1\<lparr>latestAck := n\<rparr> else pq1
         | None \<Rightarrow> pq1)"

definition latestServerSeq :: "PendingQueue \<Rightarrow> int" where
  "latestServerSeq pq = latestAck pq"

definition setLatestServerSeq :: "PendingQueue \<Rightarrow> int \<Rightarrow> PendingQueue" where
  "setLatestServerSeq pq n = (if n > latestAck pq then pq\<lparr>latestAck := n\<rparr> else pq)"

definition isEmpty :: "PendingQueue \<Rightarrow> bool" where
  "isEmpty pq = (length (q pq) = 0)"

definition snapshot :: "PendingQueue \<Rightarrow> PendingQueueSnapshot" where
  "snapshot pq = \<lparr>snap_latestAck = Some (latestAck pq), items = Some (q pq)\<rparr>"

datatype ReplaceArg = Absent | ItemArray "PendingEdit list" | SnapshotObj PendingQueueSnapshot

fun replace :: "PendingQueue \<Rightarrow> ReplaceArg \<Rightarrow> PendingQueue" where
  "replace pq Absent = \<lparr>q = [], latestAck = 0\<rparr>"
| "replace pq (ItemArray xs) = \<lparr>q = xs, latestAck = 0\<rparr>"
| "replace pq (SnapshotObj s) =
     \<lparr>q = (case items s of Some xs \<Rightarrow> xs | None \<Rightarrow> []),
      latestAck = (case snap_latestAck s of Some n \<Rightarrow> n | None \<Rightarrow> 0)\<rparr>"

section \<open>The HTTP helpers (lib/api)\<close>






record Snapshot =
  slug :: jsstring
  snap_rev :: int
  snap_content :: jsstring

section \<open>The socket\<close>

text \<open>
  The browser's WebSocket, as far as the page uses it: \<open>send\<close> throws while the
  socket is connecting, transmits when it is open and discards the data when
  it is closing or closed; \<open>close\<close> starts the closing handshake. The page's
  socket is the wrapper of lib/ws-compat, whose \<open>send\<close> hands edit and profile
  frames to the browser's socket as they are and a ping frame as
  \<open>{type: 'ping', ts}\<close>.
\<close>

datatype ReadyState = CONNECTING | OPEN | CLOSING | CLOSED

text \<open>
  The frames the page sends: \<open>EditFrame slug client_id edit\<close> is
  \<open>{type: 'edit', slug, edit: {...}}\<close> with the fields of the pending edit and the
  client id, \<open>PingFrame ts\<close> is \<open>{type: 'ping', ts}\<close>, and \<open>ProfileFrame slug label
  color\<close> is \<open>{type: 'profile', slug, label, color}\<close>.
\<close>

datatype Frame =
    EditFrame jsstring jsstring PendingEdit
  | PingFrame int
  | ProfileFrame jsstring jsstring jsstring

record WebSocket =
  readyState :: ReadyState
  outbox :: "Frame list"

datatype SendError = InvalidStateError

definition ws_send :: "WebSocket \<Rightarrow> Frame \<Rightarrow> SendError + WebSocket" where
  "ws_send w f =
     (case readyState w of
        CONNECTING \<Rightarrow> Inl InvalidStateError
      | OPEN \<Rightarrow> Inr (w\<lparr>outbox := outbox w @ [f]\<rparr>)
      | CLOSING \<Rightarrow> Inr w
      | CLOSED \<Rightarrow> Inr w)"

definition ws_close :: "WebSocket \<Rightarrow> WebSocket" where
  "ws_close w =
     (case readyState w of
        CONNECTING \<Rightarrow> w\<lparr>readyState := CLOSING\<rparr>
      | OPEN \<Rightarrow> w\<lparr>readyState := CLOSING\<rparr>
      | CLOSING \<Rightarrow> w
      | CLOSED \<Rightarrow> w)"

section \<open>The heartbeat (lib/realtime)\<close>

text \<open>
  \<open>useHeartbeat\<close> registers \<open>setInterval(tick, intervalMs)\<close>. The state of one
  heartbeat is the flag \<open>cancelled\<close>, the socket, and the environment \<open>env\<close> that
  the callbacks read and write. \<open>tick\<close> is the body of the interval callback;
  the two readings of \<open>Date.now()\<close> are its arguments.
\<close>

record 'e HeartbeatOptions =
  intervalMs :: "int option"
  staleThresholdMs :: "int option"
  onTimeout :: "('e \<Rightarrow> 'e) option"
  getLastMessageAt :: "('e \<Rightarrow> int) option"

record 'e Heartbeat =
  cancelled :: bool
  socket :: WebSocket
  env :: 'e

definition interval_of :: "'e HeartbeatOptions \<Rightarrow> int" where
  "interval_of opts = (case intervalMs opts of Some n \<Rightarrow> n | None \<Rightarrow> 5000)"

definition call_onTimeout :: "'e HeartbeatOptions \<Rightarrow> 'e \<Rightarrow> 'e" where
  "call_onTimeout opts e = (case onTimeout opts of Some f \<Rightarrow> f e | None \<Rightarrow> e)"

definition give_up :: "'e HeartbeatOptions \<Rightarrow> 'e Heartbeat \<Rightarrow> 'e Heartbeat" where
  "give_up opts hb =
     hb\<lparr>cancelled := True, socket := ws_close (socket hb),
        env := call_onTimeout opts (env hb)\<rparr>"

definition is_stale :: "'e HeartbeatOptions \<Rightarrow> 'e \<Rightarrow> int \<Rightarrow> bool" where
  "is_stale opts e now =
     (case (staleThresholdMs opts, getLastMessageAt opts) of
        (Some th, Some getLast) \<Rightarrow> now - getLast e > th
      | _ \<Rightarrow> False)"

definition tick :: "'e HeartbeatOptions \<Rightarrow> int \<Rightarrow> int \<Rightarrow> 'e Heartbeat \<Rightarrow> 'e Heartbeat" where
  "tick opts now now_ping hb =
     (if cancelled hb \<or> readyState (socket hb) \<noteq> OPEN then hb
      else if is_stale opts (env hb) now then give_up opts hb
      else case ws_send (socket hb) (PingFrame now_ping) of
             Inr w \<Rightarrow> hb\<lparr>socket := w\<rparr>
           | Inl err \<Rightarrow> give_up opts hb)"

section \<open>The edit page\<close>

text \<open>
  The refs and React states of \<open>EditPageClient\<close> that the handlers below read
  and write. \<open>storedQueue\<close> is the entry of the queue in localStorage; its value
  is the JSON of \<open>queue.toJSON()\<close>, that is of \<open>snapshot()\<close>.
\<close>

datatype AuthState = unknown | authorized | needPassword

record ImeSnapshot =
  phase :: jsstring
  ime_range :: "(int \<times> int) option"
  ime_text :: "jsstring option"

record PresenceState =
  client_id :: jsstring
  label :: "jsstring option"
  color :: "jsstring option"
  cursor :: "CursorState option"
  ime :: "ImeSnapshot option"
  last_seen :: "int option"

record page_state =
  content :: jsstring
  contentRef :: jsstring
  rev_state :: int
  revRef :: int
  queueRef :: PendingQueue
  storedQueue :: "PendingQueueSnapshot option"
  wsRef :: "WebSocket option"
  wsReadyRef :: bool
  lastMsgAtRef :: int
  authState :: AuthState
  displayNameRef :: jsstring
  displayColorRef :: jsstring
  presence :: "jsstring \<rightharpoonup> PresenceState"

definition persistQueue :: "page_state \<Rightarrow> page_state" where
  "persistQueue st = st\<lparr>storedQueue := Some (snapshot (queueRef st))\<rparr>"

text \<open>\<open>try { ws?.send(...) } catch { console.error }\<close>\<close>

definition try_send :: "page_state \<Rightarrow> Frame \<Rightarrow> page_state" where
  "try_send st f =
     (case wsRef st of
        None \<Rightarrow> st
      | Some w \<Rightarrow> (case ws_send w f of
                    Inl err \<Rightarrow> st
                  | Inr w' \<Rightarrow> st\<lparr>wsRef := Some w'\<rparr>))"




text \<open>
  \<open>handleMessage\<close> on a frame that parsed to an object. The second component
  of the result tells whether \<open>reconcileWithServer()\<close> was called.
\<close>

datatype WsInbound =
    SnapshotMsg Snapshot
  | OpBroadcastMsg Op int
  | AckMsg "jsstring option" "int option"
  | OtherMsg

fun handleMessage :: "jsstring \<Rightarrow> page_state \<Rightarrow> WsInbound \<Rightarrow> int \<Rightarrow> page_state \<times> bool" where
  "handleMessage sl st (SnapshotMsg payload) now =
     (let st0 = st\<lparr>lastMsgAtRef := now\<rparr>
      in if slug payload \<noteq> sl then (st0, False)
         else (st0\<lparr>contentRef := snap_content payload, content := snap_content payload,
                    rev_state := snap_rev payload, revRef := snap_rev payload,
                    queueRef := setLatestServerSeq (queueRef st0) (snap_rev payload)\<rparr>,
               False))"
| "handleMessage sl st (OpBroadcastMsg operation seq) now =
     (let st0 = st\<lparr>lastMsgAtRef := now\<rparr>;
          next = applyOps (content st0) [operation]
      in (st0\<lparr>content := next, contentRef := next,
               rev_state := seq, revRef := seq,
               queueRef := setLatestServerSeq (queueRef st0) seq\<rparr>,
          False))"
| "handleMessage sl st (AckMsg i seq) now =
     (let st0 = st\<lparr>lastMsgAtRef := now\<rparr>;
          st1 = st0\<lparr>queueRef := ack (queueRef st0) \<lparr>opId = i, serverSeq = seq\<rparr>\<rparr>;
          st2 = persistQueue st1;
          st3 = (case seq of Some n \<Rightarrow> st2\<lparr>rev_state := n, revRef := n\<rparr> | None \<Rightarrow> st2)
      in (st3, isEmpty (queueRef st3)))"
| "handleMessage sl st OtherMsg now = (st\<lparr>lastMsgAtRef := now\<rparr>, False)"

text \<open>The options the edit page passes to \<open>useHeartbeat\<close>.\<close>

definition edit_page_heartbeat :: "page_state HeartbeatOptions" where
  "edit_page_heartbeat =
     \<lparr>intervalMs = None, staleThresholdMs = Some 30000,
      onTimeout = Some (\<lambda>st. st\<lparr>wsReadyRef := False\<rparr>),
      getLastMessageAt = Some lastMsgAtRef\<rparr>"

section \<open>Profile: label and colour\<close>

text \<open>
  \<open>String.prototype.trim\<close> removes the white space and line terminators of
  ECMAScript at both ends; all of them are single code units.
  \<open>String.prototype.slice\<close> counts code units, with the index rules of
  \<open>Array.prototype.slice\<close>.
\<close>

definition is_js_space :: "16 word \<Rightarrow> bool" where
  "is_js_space c =
     (c \<in> set [0x09, 0x0A, 0x0B, 0x0C, 0x0D, 0x20, 0xA0, 0x1680,
                0x2028, 0x2029, 0x202F, 0x205F, 0x3000, 0xFEFF]
      \<or> (0x2000 \<le> c \<and> c \<le> 0x200A))"

definition js_trim :: "jsstring \<Rightarrow> jsstring" where
  "js_trim s = rev (dropWhile is_js_space (rev (dropWhile is_js_space s)))"

text \<open>The fallback label: the five units of the Japanese prefix, then six units of the id.\<close>

definition fallbackLabel :: "jsstring \<Rightarrow> jsstring" where
  "fallbackLabel cid = [0x30E6, 0x30FC, 0x30B6, 0x30FC, 0x2D] @ js_slice cid 0 6"

text \<open>The test \<open>/^#([0-9a-fA-F]{6})$/\<close>.\<close>

definition is_hex_digit :: "16 word \<Rightarrow> bool" where
  "is_hex_digit c =
     ((0x30 \<le> c \<and> c \<le> 0x39) \<or> (0x61 \<le> c \<and> c \<le> 0x66) \<or> (0x41 \<le> c \<and> c \<le> 0x46))"

definition is_hex_color :: "jsstring \<Rightarrow> bool" where
  "is_hex_color s =
     (case s of
        [] \<Rightarrow> False
      | h # ds \<Rightarrow> h = 0x23 \<and> length ds = 6 \<and> list_all is_hex_digit ds)"

text \<open>
  \<open>deriveClientColor\<close> computes the colour in floating point; it is the
  parameter \<open>derive\<close> here.
\<close>

definition resolvePresenceColor ::
  "(jsstring \<Rightarrow> jsstring) \<Rightarrow> jsstring option \<Rightarrow> jsstring \<Rightarrow> jsstring" where
  "resolvePresenceColor derive c cid =
     (case c of
        Some v \<Rightarrow> if v \<noteq> [] \<and> is_hex_color v then v else derive cid
      | None \<Rightarrow> derive cid)"

definition own_presence :: "page_state \<Rightarrow> jsstring \<Rightarrow> PresenceState" where
  "own_presence st cid =
     (case presence st cid of
        Some e \<Rightarrow> e
      | None \<Rightarrow> \<lparr>client_id = cid, label = None, color = None, cursor = None,
                  ime = None, last_seen = None\<rparr>)"

definition sendProfileUpdate :: "jsstring \<Rightarrow> jsstring \<Rightarrow> page_state \<Rightarrow> int \<Rightarrow> page_state" where
  "sendProfileUpdate sl cid st now =
     (let labelValue = displayNameRef st;
          colorValue = displayColorRef st;
          st1 = st\<lparr>presence := (presence st)(cid \<mapsto>
                   (own_presence st cid)\<lparr>label := Some labelValue, color := Some colorValue,
                                           last_seen := Some now\<rparr>)\<rparr>
      in case wsRef st1 of
           None \<Rightarrow> st1
         | Some w \<Rightarrow>
             if readyState w \<noteq> OPEN \<or> \<not> wsReadyRef st1 then st1
             else try_send st1 (ProfileFrame sl labelValue colorValue))"

definition final_name :: "jsstring \<Rightarrow> jsstring \<Rightarrow> jsstring" where
  "final_name profileNameInput cid =
     (let trimmed = js_slice (js_trim profileNameInput) 0 32
      in if length trimmed > 0 then trimmed else fallbackLabel cid)"

definition handleProfileSubmit ::
  "jsstring \<Rightarrow> jsstring \<Rightarrow> page_state \<Rightarrow> jsstring \<Rightarrow> jsstring \<Rightarrow> int \<Rightarrow> int \<Rightarrow> page_state" where
  "handleProfileSubmit sl cid st profileNameInput profileColorInput now now2 =
     (let finalName = final_name profileNameInput cid;
          st1 = st\<lparr>displayNameRef := finalName, displayColorRef := profileColorInput\<rparr>;
          st2 = st1\<lparr>presence := (presence st1)(cid \<mapsto>
                    (own_presence st1 cid)\<lparr>label := Some finalName,
                                             color := Some profileColorInput,
                                             last_seen := Some now\<rparr>)\<rparr>
      in sendProfileUpdate sl cid st2 now2)"

text \<open>Truncation to a number of code points, as the specification words it.\<close>

definition truncate_code_points :: "nat \<Rightarrow> jsstring \<Rightarrow> jsstring" where
  "truncate_code_points n s = join (take n (spread s))"

section \<open>The queue's objects in a store\<close>

text \<open>
  \<open>snapshot\<close> and \<open>replace\<close> copy objects, and \<open>enqueue\<close> pushes onto an array in
  place, so what they share matters. The store is a list of objects, an address
  is an index, and \<open>new\<close> objects are appended. An entry of the queue is an object
  whose \<open>ops\<close> field refers to an array of operation objects and whose cursor
  fields refer to cursor objects. A read that meets a missing object or one of
  the wrong kind gives \<open>None\<close>.
\<close>

record ItemObj =
  o_op_id :: jsstring
  o_base_rev :: int
  o_ops :: nat
  o_cursor_before :: "nat option"
  o_cursor_after :: "nat option"
  o_ts :: "int option"

datatype Obj = OArr "nat list" | OItem ItemObj | OOp Op | OCursor CursorState

type_synonym store = "Obj list"

definition lookup :: "store \<Rightarrow> nat \<Rightarrow> Obj option" where
  "lookup h a = (if a < length h then Some (h ! a) else None)"

definition read_op :: "store \<Rightarrow> nat \<Rightarrow> Op option" where
  "read_op h a = (case lookup h a of Some (OOp x) \<Rightarrow> Some x | _ \<Rightarrow> None)"

definition read_ops :: "store \<Rightarrow> nat \<Rightarrow> Op list option" where
  "read_ops h a =
     (case lookup h a of Some (OArr xs) \<Rightarrow> those (map (read_op h) xs) | _ \<Rightarrow> None)"

definition read_cursor :: "store \<Rightarrow> nat option \<Rightarrow> CursorState option option" where
  "read_cursor h r =
     (case r of
        None \<Rightarrow> Some None
      | Some a \<Rightarrow> (case lookup h a of Some (OCursor c) \<Rightarrow> Some (Some c) | _ \<Rightarrow> None))"

definition read_item :: "store \<Rightarrow> nat \<Rightarrow> PendingEdit option" where
  "read_item h a =
     (case lookup h a of
        Some (OItem it) \<Rightarrow>
          (case (read_ops h (o_ops it), read_cursor h (o_cursor_before it),
                 read_cursor h (o_cursor_after it)) of
             (Some os, Some cb, Some ca) \<Rightarrow>
               Some \<lparr>op_id = o_op_id it, base_rev = o_base_rev it, ops = os,
                     cursor_before = cb, cursor_after = ca, ts = o_ts it\<rparr>
           | _ \<Rightarrow> None)
      | _ \<Rightarrow> None)"

definition read_items :: "store \<Rightarrow> nat \<Rightarrow> PendingEdit list option" where
  "read_items h a =
     (case lookup h a of Some (OArr xs) \<Rightarrow> those (map (read_item h) xs) | _ \<Rightarrow> None)"

text \<open>\<open>item.ops.map(op => ({ ...op }))\<close>: a new object per operation, and the new array.\<close>

definition alloc_ops :: "store \<Rightarrow> Op list \<Rightarrow> nat \<times> store" where
  "alloc_ops h os =
     (length h + length os,
      h @ map OOp os @ [OArr [length h ..< length h + length os]])"

definition copy_ops :: "store \<Rightarrow> nat \<Rightarrow> (nat \<times> store) option" where
  "copy_ops h a = map_option (alloc_ops h) (read_ops h a)"

text \<open>\<open>({ ...item, ops: ... })\<close>: a new entry with the fields of the old one and the new array.\<close>

definition copy_item :: "store \<Rightarrow> nat \<Rightarrow> (nat \<times> store) option" where
  "copy_item h a =
     (case lookup h a of
        Some (OItem it) \<Rightarrow>
          (case copy_ops h (o_ops it) of
             Some (arr, h') \<Rightarrow> Some (length h', h' @ [OItem (it\<lparr>o_ops := arr\<rparr>)])
           | None \<Rightarrow> None)
      | _ \<Rightarrow> None)"

fun copy_item_list :: "store \<Rightarrow> nat list \<Rightarrow> (nat list \<times> store) option" where
  "copy_item_list h [] = Some ([], h)"
| "copy_item_list h (a # rest) =
     (case copy_item h a of
        Some (b, h1) \<Rightarrow>
          (case copy_item_list h1 rest of
             Some (bs, h2) \<Rightarrow> Some (b # bs, h2)
           | None \<Rightarrow> None)
      | None \<Rightarrow> None)"

definition copy_items :: "store \<Rightarrow> nat \<Rightarrow> (nat \<times> store) option" where
  "copy_items h a =
     (case lookup h a of
        Some (OArr xs) \<Rightarrow>
          (case copy_item_list h xs of
             Some (bs, h') \<Rightarrow> Some (length h', h' @ [OArr bs])
           | None \<Rightarrow> None)
      | _ \<Rightarrow> None)"

text \<open>The queue object: \<open>this.q\<close> refers to the array of entries.\<close>

record QueueObj =
  q_ref :: nat
  q_latestAck :: int

record SnapshotObjRef =
  s_latestAck :: "int option"
  s_items :: "nat option"

datatype ReplaceRef = RAbsent | RArray nat | RSnapshot SnapshotObjRef

definition abs_queue :: "store \<Rightarrow> QueueObj \<Rightarrow> PendingQueue option" where
  "abs_queue h qo =
     map_option (\<lambda>xs. \<lparr>q = xs, latestAck = q_latestAck qo\<rparr>) (read_items h (q_ref qo))"

definition abs_snapshot :: "store \<Rightarrow> SnapshotObjRef \<Rightarrow> PendingQueueSnapshot option" where
  "abs_snapshot h s =
     (case s_items s of
        None \<Rightarrow> Some \<lparr>snap_latestAck = s_latestAck s, items = None\<rparr>
      | Some a \<Rightarrow>
          map_option (\<lambda>xs. \<lparr>snap_latestAck = s_latestAck s, items = Some xs\<rparr>)
            (read_items h a))"

definition st_snapshot :: "store \<Rightarrow> QueueObj \<Rightarrow> (SnapshotObjRef \<times> store) option" where
  "st_snapshot h qo =
     map_option (\<lambda>(a, h'). (\<lparr>s_latestAck = Some (q_latestAck qo), s_items = Some a\<rparr>, h'))
       (copy_items h (q_ref qo))"

fun st_replace :: "store \<Rightarrow> QueueObj \<Rightarrow> ReplaceRef \<Rightarrow> (QueueObj \<times> store) option" where
  "st_replace h qo RAbsent = Some (\<lparr>q_ref = length h, q_latestAck = 0\<rparr>, h @ [OArr []])"
| "st_replace h qo (RArray a) =
     map_option (\<lambda>(b, h'). (\<lparr>q_ref = b, q_latestAck = 0\<rparr>, h')) (copy_items h a)"
| "st_replace h qo (RSnapshot s) =
     (let n = (case s_latestAck s of Some k \<Rightarrow> k | None \<Rightarrow> 0)
      in case s_items s of
           Some a \<Rightarrow>
             map_option (\<lambda>(b, h'). (\<lparr>q_ref = b, q_latestAck = n\<rparr>, h')) (copy_items h a)
         | None \<Rightarrow>
             map_option (\<lambda>(b, h'). (\<lparr>q_ref = b, q_latestAck = n\<rparr>, h'))
               (copy_items (h @ [OArr []]) (length h)))"

definition st_enqueue :: "store \<Rightarrow> QueueObj \<Rightarrow> nat \<Rightarrow> store option" where
  "st_enqueue h qo e =
     (case lookup h (q_ref qo) of
        Some (OArr xs) \<Rightarrow> Some (h[q_ref qo := OArr (xs @ [e])])
      | _ \<Rightarrow> None)"

definition item_id :: "store \<Rightarrow> nat \<Rightarrow> (nat \<times> jsstring) option" where
  "item_id h a = (case lookup h a of Some (OItem it) \<Rightarrow> Some (a, o_op_id it) | _ \<Rightarrow> None)"

definition st_filter :: "store \<Rightarrow> QueueObj \<Rightarrow> jsstring \<Rightarrow> (QueueObj \<times> store) option" where
  "st_filter h qo i =
     (case lookup h (q_ref qo) of
        Some (OArr xs) \<Rightarrow>
          (case those (map (item_id h) xs) of
             Some ps \<Rightarrow>
               Some (qo\<lparr>q_ref := length h\<rparr>,
                     h @ [OArr (map fst (filter (\<lambda>(a, k). k \<noteq> i) ps))])
           | None \<Rightarrow> None)
      | _ \<Rightarrow> None)"

definition st_ack :: "store \<Rightarrow> QueueObj \<Rightarrow> AckOpts \<Rightarrow> (QueueObj \<times> store) option" where
  "st_ack h qo opts =
     (let r = (case opId opts of
                 Some i \<Rightarrow> if i \<noteq> [] then st_filter h qo i else Some (qo, h)
               | None \<Rightarrow> Some (qo, h))
      in map_option
           (\<lambda>(qo1, h1).
              ((case serverSeq opts of
                  Some n \<Rightarrow> if n > q_latestAck qo1 then qo1\<lparr>q_latestAck := n\<rparr> else qo1
                | None \<Rightarrow> qo1),
               h1)) r)"

text \<open>
  What may happen to the store after a snapshot was taken in a store of \<open>n\<close>
  objects and left the store \<open>h1\<close>: objects are added, and objects older than the
  snapshot are overwritten, the cursor objects apart.
\<close>

definition is_cursor :: "Obj \<Rightarrow> bool" where
  "is_cursor x = (case x of OCursor c \<Rightarrow> True | _ \<Rightarrow> False)"

definition keeps :: "nat \<Rightarrow> store \<Rightarrow> store \<Rightarrow> bool" where
  "keeps n h1 h2 =
     (\<forall>k \<in> {0 ..< length h1}. n \<le> k \<or> is_cursor (h1 ! k) \<longrightarrow> lookup h2 k = Some (h1 ! k))"

text \<open>The calls that change a queue, and a sequence of them.\<close>

datatype QueueCall = CallEnqueue nat | CallAck AckOpts | CallReplace ReplaceRef | CallSetLatest int

fun st_call :: "store \<Rightarrow> QueueObj \<Rightarrow> QueueCall \<Rightarrow> (QueueObj \<times> store) option" where
  "st_call h qo (CallEnqueue e) = map_option (\<lambda>h'. (qo, h')) (st_enqueue h qo e)"
| "st_call h qo (CallAck opts) = st_ack h qo opts"
| "st_call h qo (CallReplace r) = st_replace h qo r"
| "st_call h qo (CallSetLatest n) =
     Some (if n > q_latestAck qo then qo\<lparr>q_latestAck := n\<rparr> else qo, h)"

fun st_calls :: "store \<Rightarrow> QueueObj \<Rightarrow> QueueCall list \<Rightarrow> (QueueObj \<times> store) option" where
  "st_calls h qo [] = Some (qo, h)"
| "st_calls h qo (c # cs) =
     (case st_call h qo c of
        Some (qo', h') \<Rightarrow> st_calls h' qo' cs
      | None \<Rightarrow> None)"

text \<open>
  What holds of the store and the queue after any calls that follow a
  snapshot: the objects of the snapshot and the cursor objects are as they
  were, and \<open>this.q\<close> is an array that is not one of the snapshot's.
\<close>

definition queue_inv :: "nat \<Rightarrow> store \<Rightarrow> store \<Rightarrow> QueueObj \<Rightarrow> bool" where
  "queue_inv n h1 H qo \<longleftrightarrow>
     keeps n h1 H \<and> length h1 \<le> length H
     \<and> (\<exists>xs. lookup H (q_ref qo) = Some (OArr xs))
     \<and> (q_ref qo < n \<or> length h1 \<le> q_ref qo)"

section \<open>The heartbeat as an effect\<close>

text \<open>
  \<open>useHeartbeat\<close> sets the interval up in an effect whose dependencies are
  \<open>[socket, intervalMs, staleThresholdMs, onTimeout, getLastMessageAt]\<close>. When a
  dependency changes between two renders, React runs the cleanup (\<open>cancelled =
  true; clearInterval(id)\<close>) and then the effect again, which starts a new
  interval. The edit page passes \<open>onTimeout\<close> as an arrow function written in
  the call, a new function at every render, so every render of the page
  restarts the interval. \<open>due\<close> is the time at which the interval fires next;
  a firing runs \<open>tick\<close> at that time.
\<close>

record 'e Timer =
  beat :: "'e Heartbeat"
  due :: int

definition mount :: "'e HeartbeatOptions \<Rightarrow> int \<Rightarrow> WebSocket \<Rightarrow> 'e \<Rightarrow> 'e Timer" where
  "mount opts t w e =
     \<lparr>beat = \<lparr>cancelled = False, socket = w, env = e\<rparr>, due = t + interval_of opts\<rparr>"

definition fire :: "'e HeartbeatOptions \<Rightarrow> 'e Timer \<Rightarrow> 'e Timer" where
  "fire opts tm =
     \<lparr>beat = tick opts (due tm) (due tm) (beat tm), due = due tm + interval_of opts\<rparr>"

fun fire_n :: "'e HeartbeatOptions \<Rightarrow> nat \<Rightarrow> 'e Timer \<Rightarrow> 'e Timer" where
  "fire_n opts 0 tm = tm"
| "fire_n opts (Suc k) tm = fire_n opts k (fire opts tm)"

text \<open>Time passes until \<open>t\<close>: the interval fires at every due time up to \<open>t\<close>.\<close>

definition advance :: "'e HeartbeatOptions \<Rightarrow> int \<Rightarrow> 'e Timer \<Rightarrow> 'e Timer" where
  "advance opts t tm =
     (if 0 < interval_of opts \<and> due tm \<le> t
      then fire_n opts (Suc (nat ((t - due tm) div interval_of opts))) tm
      else tm)"

text \<open>The page renders at time \<open>t\<close>: cleanup, then the effect again.\<close>

definition render_at :: "'e HeartbeatOptions \<Rightarrow> int \<Rightarrow> 'e Timer \<Rightarrow> 'e Timer" where
  "render_at opts t tm =
     (let tm' = advance opts t tm
      in mount opts t (socket (beat tm')) (env (beat tm')))"

fun renders :: "'e HeartbeatOptions \<Rightarrow> 'e Timer \<Rightarrow> int list \<Rightarrow> 'e Timer" where
  "renders opts tm [] = tm"
| "renders opts tm (t # rest) = renders opts (render_at opts t tm) rest"

section \<open>Concrete states\<close>

definition ex_entry :: "jsstring \<Rightarrow> Op list \<Rightarrow> PendingEdit" where
  "ex_entry i os =
     \<lparr>op_id = i, base_rev = 0, ops = os, cursor_before = None, cursor_after = None,
      ts = None\<rparr>"

definition ex_page :: "jsstring \<Rightarrow> PendingEdit list \<Rightarrow> WebSocket option \<Rightarrow> page_state" where
  "ex_page txt es w =
     \<lparr>content = txt, contentRef = txt, rev_state = 0, revRef = 0,
      queueRef = \<lparr>q = es, latestAck = 0\<rparr>, storedQueue = None,
      wsRef = w, wsReadyRef = True, lastMsgAtRef = 0, authState = authorized,
      displayNameRef = [0x61], displayColorRef = [0x23, 0x30, 0x30, 0x30, 0x30, 0x30, 0x30],
      presence = Map.empty\<rparr>"

definition ex_socket :: "ReadyState \<Rightarrow> WebSocket" where
  "ex_socket r = \<lparr>readyState = r, outbox = []\<rparr>"

definition digits :: jsstring where
  "digits = [0x30, 0x31, 0x32, 0x33, 0x34, 0x35, 0x36, 0x37, 0x38, 0x39]"

definition emoji :: "nat \<Rightarrow> jsstring" where
  "emoji n = concat (replicate n [0xD83D, 0xDE00])"

definition ex_store :: store where
  "ex_store =
     [OCursor \<lparr>position = 1, anchor = None, selection_direction = None\<rparr>,
      OOp (Insert 0 [0x61]),
      OArr [1],
      OItem \<lparr>o_op_id = [0x70], o_base_rev = 2, o_ops = 2, o_cursor_before = None,
             o_cursor_after = Some 0, o_ts = Some 9\<rparr>,
      OArr [3]]"

definition ex_queue_obj :: QueueObj where
  "ex_queue_obj = \<lparr>q_ref = 4, q_latestAck = 5\<rparr>"

definition ex_queue :: PendingQueue where
  "ex_queue =
     \<lparr>q = [\<lparr>op_id = [0x70], base_rev = 2, ops = [Insert 0 [0x61]], cursor_before = None,
            cursor_after = Some \<lparr>position = 1, anchor = None, selection_direction = None\<rparr>,
            ts = Some 9\<rparr>],
      latestAck = 5\<rparr>"

section \<open>Properties of the text operations\<close>

subsection \<open>Code points\<close>

lemma join_spread: "join (spread s) = s"
  by (induction s rule: spread.induct) (auto simp: join_def)

lemma spread_nonempty: "x \<in> set (spread s) \<Longrightarrow> x \<noteq> []"
  by (induction s rule: spread.induct) (auto split: if_splits)

lemma scan_prefix_le:
  "i \<le> length a \<Longrightarrow> i \<le> length b \<Longrightarrow>
   scan_prefix a b i \<le> length a \<and> scan_prefix a b i \<le> length b"
proof (induction a b i rule: scan_prefix.induct)
  case (1 a b i)
  show ?case
  proof (cases "i < length a \<and> i < length b \<and> a ! i = b ! i")
    case True
    then have "scan_prefix a b i = scan_prefix a b (i + 1)"
      by (subst scan_prefix.simps) simp
    with True "1.IH" show ?thesis by simp
  next
    case False
    then have "scan_prefix a b i = i"
      by (subst scan_prefix.simps) auto
    with "1.prems" show ?thesis by simp
  qed
qed

lemma scan_prefix_take:
  "take i a = take i b \<Longrightarrow>
   take (scan_prefix a b i) a = take (scan_prefix a b i) b"
proof (induction a b i rule: scan_prefix.induct)
  case (1 a b i)
  show ?case
  proof (cases "i < length a \<and> i < length b \<and> a ! i = b ! i")
    case True
    then have eq: "scan_prefix a b i = scan_prefix a b (i + 1)"
      by (subst scan_prefix.simps) simp
    from True "1.prems" have "take (i + 1) a = take (i + 1) b"
      by (simp add: take_Suc_conv_app_nth)
    with True "1.IH" eq show ?thesis by simp
  next
    case False
    then have "scan_prefix a b i = i"
      by (subst scan_prefix.simps) auto
    with "1.prems" show ?thesis by simp
  qed
qed

lemma scan_suffix_le:
  "j \<le> length a - i \<Longrightarrow> j \<le> length b - i \<Longrightarrow>
   scan_suffix a b i j \<le> length a - i \<and> scan_suffix a b i j \<le> length b - i"
proof (induction a b i j rule: scan_suffix.induct)
  case (1 a b i j)
  show ?case
  proof (cases "j < length a - i \<and> j < length b - i
         \<and> a ! (length a - 1 - j) = b ! (length b - 1 - j)")
    case True
    then have "scan_suffix a b i j = scan_suffix a b i (j + 1)"
      by (subst scan_suffix.simps) simp
    with True "1.IH" show ?thesis by simp
  next
    case False
    then have "scan_suffix a b i j = j"
      by (subst scan_suffix.simps) auto
    with "1.prems" show ?thesis by simp
  qed
qed

lemma drop_step:
  "j < length a \<Longrightarrow> drop (length a - (j + 1)) a = a ! (length a - 1 - j) # drop (length a - j) a"
proof -
  assume h: "j < length a"
  then have "length a - (j + 1) < length a" by simp
  then have "drop (length a - (j + 1)) a = a ! (length a - (j + 1)) # drop (Suc (length a - (j + 1))) a"
    by (rule Cons_nth_drop_Suc [symmetric])
  moreover from h have "Suc (length a - (j + 1)) = length a - j" by simp
  moreover have "length a - (j + 1) = length a - 1 - j" by simp
  ultimately show ?thesis by simp
qed

lemma scan_suffix_drop:
  "drop (length a - j) a = drop (length b - j) b \<Longrightarrow>
   drop (length a - scan_suffix a b i j) a = drop (length b - scan_suffix a b i j) b"
proof (induction a b i j rule: scan_suffix.induct)
  case (1 a b i j)
  show ?case
  proof (cases "j < length a - i \<and> j < length b - i
         \<and> a ! (length a - 1 - j) = b ! (length b - 1 - j)")
    case True
    then have eq: "scan_suffix a b i j = scan_suffix a b i (j + 1)"
      by (subst scan_suffix.simps) simp
    from True have ja: "j < length a" and jb: "j < length b" by arith+
    from True "1.prems" drop_step [OF ja] drop_step [OF jb]
    have "drop (length a - (j + 1)) a = drop (length b - (j + 1)) b"
      by simp
    with True "1.IH" eq show ?thesis by simp
  next
    case False
    then have "scan_suffix a b i j = j"
      by (subst scan_suffix.simps) auto
    with "1.prems" show ?thesis by simp
  qed
qed

lemma join_empty_iff: "\<forall>x \<in> set xs. x \<noteq> [] \<Longrightarrow> join xs = [] \<longleftrightarrow> xs = []"
  by (cases xs) (auto simp: join_def)

lemma slice_mid:
  "i \<le> length a \<Longrightarrow> j \<le> length a - i \<Longrightarrow>
   js_slice a (int i) (int (length a) - int j) = take (length a - j - i) (drop i a)"
proof -
  assume h: "i \<le> length a" "j \<le> length a - i"
  then have e: "nat (int (length a) - int j) = length a - j"
    and n: "\<not> int (length a) - int j < 0" by arith+
  have m: "min (length a - j) (length a) = length a - j" by simp
  from h show ?thesis
    by (simp add: js_slice_def rel_index_def Let_def e n m)
qed

lemma slice_subset: "set (js_slice a s e) \<subseteq> set a"
  unfolding js_slice_def Let_def
  by (meson set_take_subset set_drop_subset subset_trans)

lemma mids_empty_eq:
  assumes ia: "i \<le> length a" and ib: "i \<le> length b"
    and ja: "j \<le> length a - i" and jb: "j \<le> length b - i"
    and pre: "take i a = take i b"
    and suf: "drop (length a - j) a = drop (length b - j) b"
    and ma: "js_slice a (int i) (int (length a) - int j) = []"
    and mb: "js_slice b (int i) (int (length b) - int j) = []"
  shows "a = b"
proof -
  from ma ia ja have "take (length a - j - i) (drop i a) = []"
    by (simp only: slice_mid)
  then have "length a - j - i = 0 \<or> length a \<le> i" by simp
  with ia ja have la: "length a = i + j" by arith
  from mb ib jb have "take (length b - j - i) (drop i b) = []"
    by (simp only: slice_mid)
  then have "length b - j - i = 0 \<or> length b \<le> i" by simp
  with ib jb have lb: "length b = i + j" by arith
  have "a = take i a @ drop i a" by simp
  also from la have "drop i a = drop (length a - j) a" by simp
  also note suf
  also from lb have "drop (length b - j) b = drop i b" by simp
  also note pre
  finally show ?thesis by simp
qed

lemma diff_scan_facts:
  fixes a b :: "jsstring list"
  defines "i \<equiv> scan_prefix a b 0"
  defines "j \<equiv> scan_suffix a b i 0"
  shows "i \<le> length a" "i \<le> length b" "j \<le> length a - i" "j \<le> length b - i"
    "take i a = take i b" "drop (length a - j) a = drop (length b - j) b"
proof -
  show "i \<le> length a" "i \<le> length b"
    using scan_prefix_le [of 0 a b] by (simp_all add: i_def)
  show "j \<le> length a - i" "j \<le> length b - i"
    using scan_suffix_le [of 0 a i b] by (simp_all add: j_def)
  show "take i a = take i b"
    using scan_prefix_take [of 0 a b] by (simp add: i_def)
  show "drop (length a - j) a = drop (length b - j) b"
    using scan_suffix_drop [of a 0 b i] by (simp add: j_def)
qed

lemma mid_join_empty:
  "join (js_slice (spread s) k e) = [] \<longleftrightarrow> js_slice (spread s) k e = []"
proof (rule join_empty_iff)
  show "\<forall>x\<in>set (js_slice (spread s) k e). x \<noteq> []"
    using slice_subset [of "spread s" k e] spread_nonempty by blast
qed

lemma diffToOps_nonempty:
  assumes ne: "before \<noteq> after"
  shows "diffToOps before after \<noteq> []"
proof
  assume emp: "diffToOps before after = []"
  define a where "a = spread before"
  define b where "b = spread after"
  define i where "i = scan_prefix a b 0"
  define j where "j = scan_suffix a b i 0"
  from emp ne have ma: "join (js_slice a (int i) (int (length a) - int j)) = []"
    and mb: "join (js_slice b (int i) (int (length b) - int j)) = []"
    by (auto simp: diffToOps_def Let_def a_def b_def i_def j_def split: if_splits)
  then have "js_slice a (int i) (int (length a) - int j) = []"
    and "js_slice b (int i) (int (length b) - int j) = []"
    by (simp_all add: a_def b_def mid_join_empty)
  then have "a = b"
    using diff_scan_facts [of a b]
    unfolding i_def [symmetric] j_def [symmetric]
    by (intro mids_empty_eq [of i a b j]) 
  then have "join a = join b" by simp
  then have "before = after" by (simp add: a_def b_def join_spread)
  with ne show False by contradiction
qed

lemma slice_0: "0 \<le> p \<Longrightarrow> js_slice xs 0 p = take (nat p) xs"
  by (simp add: js_slice_def rel_index_def Let_def min_def)

lemma js_slice_from_nonneg: "0 \<le> p \<Longrightarrow> js_slice_from xs p = drop (nat p) xs"
  by (simp add: js_slice_from_def rel_index_def min_def)

subsection \<open>Clamping\<close>

text \<open>
  Claim C3. \<open>applyOps\<close> has no failing branch. For an insert or a delete with
  non-negative \<open>pos\<close> and \<open>len\<close>, applying the operation gives the text that the
  clamped operation denotes: the position is cut to the number of code points of
  the text, the length of a delete to what is left behind the position, and
  the clamped operation lies within the text.
\<close>

theorem applyOps_clamps:
  assumes "nonneg opn"
  shows "applyOps s [opn] = join (splice (spread s) (clamp_op (length (spread s)) opn))
       \<and> in_range (length (spread s)) (clamp_op (length (spread s)) opn)"
proof (cases opn)
  case (Insert pos t)
  with assms have p: "0 \<le> pos" by simp
  show ?thesis
    using p by (auto simp: Insert slice_0 js_slice_from_nonneg join_def Let_def min_def)
next
  case (Delete pos len)
  with assms have p: "0 \<le> pos" "0 \<le> len" by simp_all
  then have q: "0 \<le> pos + len" by simp
  show ?thesis
    using p by (auto simp: Delete slice_0 js_slice_from_nonneg [OF q] join_def Let_def min_def nat_add_distrib)
qed

theorem applyOps_clamps_witness:
  "nonneg (Delete 1 5) \<and> applyOps [0x61, 0x62, 0x63] [Delete 1 5] = [0x61]"
proof -
  have h: "nonneg (Delete 1 5)" by simp
  have v: "join (splice (spread [0x61, 0x62, 0x63])
             (clamp_op (length (spread [0x61, 0x62, 0x63])) (Delete 1 5))) = [0x61]"
    by code_simp
  from applyOps_clamps [OF h, of "[0x61, 0x62, 0x63]"] v h show ?thesis by simp
qed

subsection \<open>The shape of a diff\<close>

text \<open>
  Claim C4. \<open>diffToOps\<close> returns at most two operations: nothing, one delete,
  one insert, or one delete followed by one insert at the same position. It
  returns the empty list exactly when the two texts are equal.
\<close>

theorem diffToOps_shape:
  "(\<exists>i n t. diffToOps before after = []
            \<or> diffToOps before after = [Delete i n]
            \<or> diffToOps before after = [Insert i t]
            \<or> diffToOps before after = [Delete i n, Insert i t])
   \<and> length (diffToOps before after) \<le> 2
   \<and> (diffToOps before after = [] \<longleftrightarrow> before = after)"
proof (intro conjI)
  show "\<exists>i n t. diffToOps before after = []
            \<or> diffToOps before after = [Delete i n]
            \<or> diffToOps before after = [Insert i t]
            \<or> diffToOps before after = [Delete i n, Insert i t]"
    by (auto simp: diffToOps_def Let_def)
  show "length (diffToOps before after) \<le> 2"
    by (simp add: diffToOps_def Let_def)
  show "diffToOps before after = [] \<longleftrightarrow> before = after"
    using diffToOps_nonempty [of before after] by (auto simp: diffToOps_def)
qed

subsection \<open>Round trip\<close>

text \<open>
  When the text before has no surrogate code units, code points and code units
  coincide and the diff leads from the one text to the other.
\<close>

lemma spread_bmp: "no_surrogates s \<Longrightarrow> spread s = map (\<lambda>c. [c]) s"
  by (induction s rule: spread.induct) (auto simp: no_surrogates_def)

lemma join_singles: "join (map (\<lambda>c. [c]) s) = s"
  by (induction s) (auto simp: join_def)

lemma join_append: "join (xs @ ys) = join xs @ join ys"
  by (simp add: join_def)

lemma no_surrogates_append: "no_surrogates (xs @ ys) \<longleftrightarrow> no_surrogates xs \<and> no_surrogates ys"
  by (simp add: no_surrogates_def)

lemma no_surrogates_take: "no_surrogates s \<Longrightarrow> no_surrogates (take n s)"
  by (metis append_take_drop_id no_surrogates_append)

lemma no_surrogates_drop: "no_surrogates s \<Longrightarrow> no_surrogates (drop n s)"
  by (metis append_take_drop_id no_surrogates_append)

lemma applyOp_delete_bmp:
  assumes "no_surrogates s" "0 \<le> p" "0 \<le> n"
  shows "applyOp s (Delete p n) = take (nat p) s @ drop (nat p + nat n) s"
proof -
  from assms have "0 \<le> p + n" by simp
  with assms show ?thesis
    by (simp add: spread_bmp slice_0 js_slice_from_nonneg take_map drop_map join_singles
        nat_add_distrib Let_def)
qed

lemma applyOp_insert_bmp:
  assumes "no_surrogates s" "0 \<le> p"
  shows "applyOp s (Insert p t) = take (nat p) s @ t @ drop (nat p) s"
  using assms
  by (simp add: spread_bmp slice_0 js_slice_from_nonneg take_map drop_map join_singles Let_def)

lemma diff_roundtrip_bmp:
  assumes bmp: "no_surrogates before"
  shows "applyOps before (diffToOps before after) = after"
proof (cases "before = after")
  case True
  then show ?thesis by (simp add: diffToOps_def)
next
  case False
  define a where "a = spread before"
  define b where "b = spread after"
  define i where "i = scan_prefix a b 0"
  define j where "j = scan_suffix a b i 0"
  define midA where "midA = take (length a - j - i) (drop i a)"
  define midB where "midB = take (length b - j - i) (drop i b)"
  have f: "i \<le> length a" "i \<le> length b" "j \<le> length a - i" "j \<le> length b - i"
    "take i a = take i b" "drop (length a - j) a = drop (length b - j) b"
    using diff_scan_facts [of a b] by (simp_all add: i_def j_def)
  have a_sing: "a = map (\<lambda>c. [c]) before" by (simp add: a_def spread_bmp bmp)
  have la: "length a = length before" by (simp add: a_sing)
  have sa: "js_slice a (int i) (int (length a) - int j) = midA"
    using f(1,3) by (simp add: slice_mid midA_def)
  have sb: "js_slice b (int i) (int (length b) - int j) = midB"
    using f(2,4) by (simp add: slice_mid midB_def)
  have lmid: "length (join midA) = length midA"
    by (simp add: midA_def a_sing take_map drop_map join_singles)
  have lmidA: "length midA = length before - j - i"
    using f(3) by (simp add: midA_def la)
  have ja: "join midA = [] \<longleftrightarrow> midA = []"
    using mid_join_empty [of before "int i" "int (length a) - int j"]
    by (simp only: a_def [symmetric] sa)
  have jb: "join midB = [] \<longleftrightarrow> midB = []"
    using mid_join_empty [of after "int i" "int (length b) - int j"]
    by (simp only: b_def [symmetric] sb)
  have "diffToOps before after
      = (let ops1 = (if length (join midA) > 0
                     then [Delete (int i) (int (length (join midA)))] else [])
         in if length (join midB) > 0 then ops1 @ [Insert (int i) (join midB)] else ops1)"
    using False
    by (simp only: diffToOps_def Let_def a_def [symmetric] b_def [symmetric]
        i_def [symmetric] j_def [symmetric] sa sb if_False)
  then have ops: "diffToOps before after
      = (if midA \<noteq> [] then [Delete (int i) (int (length midA))] else [])
        @ (if midB \<noteq> [] then [Insert (int i) (join midB)] else [])"
    using ja jb by (simp add: lmid Let_def)
  define s1 where "s1 = take i before @ drop (length before - j) before"
  have s1_bmp: "no_surrogates s1"
    by (simp add: s1_def no_surrogates_append no_surrogates_take no_surrogates_drop bmp)
  have del: "applyOps before (if midA \<noteq> [] then [Delete (int i) (int (length midA))] else []) = s1"
  proof (cases "midA = []")
    case True
    with lmidA f(1,3) have "length before - j = i" by (simp add: la)
    with True show ?thesis by (simp add: s1_def)
  next
    case False
    have "i + length midA = length before - j"
      using f(1,3) by (simp add: lmidA la)
    moreover have "applyOp before (Delete (int i) (int (length midA)))
        = take i before @ drop (i + length midA) before"
      using applyOp_delete_bmp [OF bmp, of "int i" "int (length midA)"] by simp
    ultimately show ?thesis
      using False by (simp add: s1_def del: applyOp.simps)
  qed
  have i_le: "i \<le> length before" using f(1) by (simp add: la)
  have t1: "take i s1 = take i before" using i_le by (simp add: s1_def)
  have d1: "drop i s1 = drop (length before - j) before" using i_le by (simp add: s1_def)
  have ins: "applyOps s1 (if midB \<noteq> [] then [Insert (int i) (join midB)] else [])
      = take i before @ join midB @ drop (length before - j) before"
  proof (cases "midB = []")
    case True
    then show ?thesis by (simp add: s1_def join_def)
  next
    case False
    moreover have "applyOp s1 (Insert (int i) (join midB))
        = take i s1 @ join midB @ drop i s1"
      using applyOp_insert_bmp [OF s1_bmp, of "int i" "join midB"] by simp
    ultimately show ?thesis
      by (simp add: t1 d1 del: applyOp.simps)
  qed
  have "b = take i b @ midB @ drop (length b - j) b"
  proof -
    have "drop i b = take (length b - j - i) (drop i b) @ drop (length b - j - i) (drop i b)"
      by (rule append_take_drop_id [symmetric])
    also have "drop (length b - j - i) (drop i b) = drop (length b - j) b"
    proof -
      from f(2,4) have "length b - j - i + i = length b - j" by simp
      then show ?thesis by (simp only: drop_drop)
    qed
    finally have "drop i b = midB @ drop (length b - j) b" by (simp add: midB_def)
    then have "take i b @ drop i b = take i b @ midB @ drop (length b - j) b" by simp
    then show ?thesis by simp
  qed
  then have "join b = join (take i b) @ join midB @ join (drop (length b - j) b)"
    by (metis join_append)
  also have "join (take i b) = take i before"
    unfolding f(5) [symmetric] by (simp add: a_sing take_map join_singles)
  also have "join (drop (length b - j) b) = drop (length before - j) before"
    unfolding f(6) [symmetric] by (simp add: a_sing drop_map join_singles)
  finally have after_eq: "after = take i before @ join midB @ drop (length before - j) before"
    by (simp add: b_def join_spread)
  have app: "applyOps s (xs @ ys) = applyOps (applyOps s xs) ys" for s xs ys
    by (induction xs arbitrary: s) auto
  show ?thesis
    unfolding ops app del ins after_eq [symmetric] ..
qed

text \<open>
  Claim C1 says that applying the diff of \<open>a\<close> and \<open>b\<close> to \<open>a\<close> gives \<open>b\<close>.
  \<open>diffToOps\<close> counts the position of its delete in code points but its length
  in code units (\<open>beforeMid.length\<close>), and \<open>applyOps\<close> reads both in code points.
  For the text U+1F600 followed by the letter b, and the target b, the diff
  deletes two code points from position 0, which removes the letter as well:
  the round trip fails on this input.
\<close>

theorem diff_roundtrip_fails_astral:
  "diffToOps [0xD83D, 0xDE00, 0x62] [0x62] = [Delete 0 2]
   \<and> applyOps [0xD83D, 0xDE00, 0x62] (diffToOps [0xD83D, 0xDE00, 0x62] [0x62]) = []
   \<and> applyOps [0xD83D, 0xDE00, 0x62] (diffToOps [0xD83D, 0xDE00, 0x62] [0x62]) \<noteq> [0x62]"
  by code_simp

section \<open>Properties of the pending queue\<close>

text \<open>
  Claim C5, as amended. An ack that carries a non-empty \<open>opId\<close> and a
  \<open>serverSeq\<close> removes exactly the entries with that \<open>op_id\<close>, keeps the others
  in their order, and sets the latest server sequence to the maximum of its old
  value and \<open>serverSeq\<close>. An ack whose \<open>opId\<close> is the empty string or absent
  removes nothing.
\<close>

theorem ack_removes_matching:
  "(i \<noteq> [] \<longrightarrow>
      ack pq \<lparr>opId = Some i, serverSeq = Some n\<rparr>
        = \<lparr>q = filter (\<lambda>entry. op_id entry \<noteq> i) (q pq), latestAck = max (latestAck pq) n\<rparr>)
   \<and> ack pq \<lparr>opId = Some [], serverSeq = Some n\<rparr>
        = \<lparr>q = q pq, latestAck = max (latestAck pq) n\<rparr>
   \<and> ack pq \<lparr>opId = None, serverSeq = Some n\<rparr>
        = \<lparr>q = q pq, latestAck = max (latestAck pq) n\<rparr>"
  by (simp add: ack_def Let_def max_def)

theorem ack_removes_matching_witness:
  "[0x62] \<noteq> ([] :: jsstring)
   \<and> ack \<lparr>q = [ex_entry [0x61] [], ex_entry [0x62] [], ex_entry [0x63] []], latestAck = 4\<rparr>
         \<lparr>opId = Some [0x62], serverSeq = Some 7\<rparr>
       = \<lparr>q = [ex_entry [0x61] [], ex_entry [0x63] []], latestAck = 7\<rparr>"
  using ack_removes_matching
    [of "[0x62]" "\<lparr>q = [ex_entry [0x61] [], ex_entry [0x62] [], ex_entry [0x63] []], latestAck = 4\<rparr>" 7]
  by (simp add: ex_entry_def)

text \<open>
  Claim C5 as stated fails for the empty \<open>opId\<close>: the entry whose \<open>op_id\<close> is the
  empty string stays in the queue, where removing the entries with that
  \<open>op_id\<close> leaves none.
\<close>

theorem ack_empty_id_counterexample:
  "q (ack \<lparr>q = [ex_entry [] []], latestAck = 0\<rparr> \<lparr>opId = Some [], serverSeq = Some 1\<rparr>)
     = [ex_entry [] []]
   \<and> filter (\<lambda>entry. op_id entry \<noteq> []) [ex_entry [] []] = []"
  by (simp add: ack_def ex_entry_def)

section \<open>Properties of the HTTP helpers\<close>



section \<open>Properties of the edit page\<close>

subsection \<open>Remote operations\<close>

text \<open>
  Claim C2, as amended. On an \<open>op_broadcast\<close> frame the client applies the
  remote operation to the local text, sets its revision to the server sequence
  number of the frame and raises the latest server sequence of the queue to it;
  the pending edits of the queue stay as they are.
\<close>

theorem op_broadcast_effect:
  "content (fst (handleMessage sl st (OpBroadcastMsg x seq) now)) = applyOps (content st) [x]
   \<and> contentRef (fst (handleMessage sl st (OpBroadcastMsg x seq) now)) = applyOps (content st) [x]
   \<and> q (queueRef (fst (handleMessage sl st (OpBroadcastMsg x seq) now))) = q (queueRef st)
   \<and> latestAck (queueRef (fst (handleMessage sl st (OpBroadcastMsg x seq) now)))
        = max (latestAck (queueRef st)) seq
   \<and> rev_state (fst (handleMessage sl st (OpBroadcastMsg x seq) now)) = seq
   \<and> revRef (fst (handleMessage sl st (OpBroadcastMsg x seq) now)) = seq"
  by (simp add: Let_def setLatestServerSeq_def max_def)

text \<open>
  Claim C2 as stated fails: with the pending insert at position 5 and the
  remote insert of three code points at position 0, the table of the
  specification moves the pending insert to position 8, and the client leaves
  it at 5.
\<close>

theorem op_broadcast_no_transform_counterexample:
  "map ops (q (queueRef (fst (handleMessage [0x64]
       (ex_page digits [ex_entry [0x70] [Insert 5 [0x78]]] None)
       (OpBroadcastMsg (Insert 0 [0x61, 0x62, 0x63]) 1) 0))))
     = [[Insert 5 [0x78]]]
   \<and> spec_transform_ops True [Insert 5 [0x78]] (Insert 0 [0x61, 0x62, 0x63]) = [Insert 8 [0x78]]
   \<and> spec_transform_ops False [Insert 5 [0x78]] (Insert 0 [0x61, 0x62, 0x63]) = [Insert 8 [0x78]]"
  by code_simp

subsection \<open>Drift repair\<close>






subsection \<open>Profile\<close>

lemma js_trim_nil_iff: "js_trim s = [] \<longleftrightarrow> list_all is_js_space s"
proof
  assume "js_trim s = []"
  then have a: "\<forall>x \<in> set (dropWhile is_js_space s). is_js_space x"
    by (simp add: js_trim_def)
  show "list_all is_js_space s"
  proof (cases "dropWhile is_js_space s")
    case Nil
    then show ?thesis by (simp add: list_all_iff)
  next
    case (Cons x xs)
    then have "\<not> is_js_space x" by (metis hd_dropWhile list.sel(1) list.distinct(1))
    with a Cons show ?thesis by simp
  qed
next
  assume "list_all is_js_space s"
  then have d: "dropWhile is_js_space s = []" by (simp add: list_all_iff)
  show "js_trim s = []" unfolding js_trim_def d by simp
qed

lemma js_slice_string_0: "0 \<le> n \<Longrightarrow> js_slice s 0 n = take (nat n) s"
  by (simp add: js_slice_def rel_index_def Let_def min_def)

lemma final_name_eq:
  "final_name name cid = (if js_trim name = [] then fallbackLabel cid else take 32 (js_trim name))"
  by (auto simp: final_name_def Let_def js_slice_string_0)

lemma is_hex_color_iff:
  "is_hex_color v \<longleftrightarrow> length v = 7 \<and> v ! 0 = 0x23 \<and> (\<forall>k \<in> {1 ..< 7}. is_hex_digit (v ! k))"
proof (cases v)
  case Nil
  then show ?thesis by (simp add: is_hex_color_def)
next
  case (Cons h ds)
  have "length ds = 6 \<Longrightarrow> list_all is_hex_digit ds \<longleftrightarrow> (\<forall>k \<in> {1 ..< 7}. is_hex_digit ((h # ds) ! k))"
  proof -
    assume l: "length ds = 6"
    have "list_all is_hex_digit ds \<longleftrightarrow> (\<forall>i < length ds. is_hex_digit (ds ! i))"
      by (simp add: list_all_length)
    also have "\<dots> \<longleftrightarrow> (\<forall>k \<in> {1 ..< 7}. is_hex_digit ((h # ds) ! k))"
    proof
      assume a: "\<forall>i < length ds. is_hex_digit (ds ! i)"
      show "\<forall>k \<in> {1 ..< 7}. is_hex_digit ((h # ds) ! k)"
      proof
        fix k assume "k \<in> {1 ..< 7::nat}"
        then obtain i where "k = Suc i" "i < 6" by (cases k) auto
        with a l show "is_hex_digit ((h # ds) ! k)" by simp
      qed
    next
      assume a: "\<forall>k \<in> {1 ..< 7}. is_hex_digit ((h # ds) ! k)"
      show "\<forall>i < length ds. is_hex_digit (ds ! i)"
      proof (intro allI impI)
        fix i assume "i < length ds"
        with l have "Suc i \<in> {1 ..< 7}" by simp
        with a have "is_hex_digit ((h # ds) ! Suc i)" by blast
        then show "is_hex_digit (ds ! i)" by simp
      qed
    qed
    finally show ?thesis .
  qed
  then show ?thesis by (auto simp: is_hex_color_def Cons)
qed

lemma handleProfileSubmit_refs:
  "displayNameRef (handleProfileSubmit sl cid st name col now now2) = final_name name cid"
  "displayColorRef (handleProfileSubmit sl cid st name col now now2) = col"
  by (auto simp: handleProfileSubmit_def sendProfileUpdate_def try_send_def Let_def
      split: option.splits sum.splits)

text \<open>
  Claim C7, as amended. A profile update trims the submitted label and keeps
  at most its first 32 code units; a label that is empty or all white space is
  replaced by the fallback label of the client. The submitted colour is stored
  as it is. Where a presence colour is shown, a colour that is absent or does
  not match \<open>#RRGGBB\<close> is replaced by the colour derived from the client id.
\<close>

theorem profile_label_and_color:
  "displayNameRef (handleProfileSubmit sl cid st name col now now2)
     = (if list_all is_js_space name then fallbackLabel cid else take 32 (js_trim name))
   \<and> length (displayNameRef (handleProfileSubmit sl cid st name col now now2)) \<le> 32
   \<and> displayColorRef (handleProfileSubmit sl cid st name col now now2) = col
   \<and> resolvePresenceColor derive c cid
       = (case c of Some v \<Rightarrow> if is_hex_color v then v else derive cid | None \<Rightarrow> derive cid)
   \<and> (is_hex_color v \<longleftrightarrow>
        length v = 7 \<and> v ! 0 = 0x23 \<and> (\<forall>k \<in> {1 ..< 7}. is_hex_digit (v ! k)))"
proof (intro conjI)
  show "displayNameRef (handleProfileSubmit sl cid st name col now now2)
     = (if list_all is_js_space name then fallbackLabel cid else take 32 (js_trim name))"
    by (simp add: handleProfileSubmit_refs final_name_eq js_trim_nil_iff)
  have "length (fallbackLabel cid) \<le> 32"
    by (simp add: fallbackLabel_def js_slice_string_0)
  then show "length (displayNameRef (handleProfileSubmit sl cid st name col now now2)) \<le> 32"
    by (simp add: handleProfileSubmit_refs final_name_eq)
  show "displayColorRef (handleProfileSubmit sl cid st name col now now2) = col"
    by (simp add: handleProfileSubmit_refs)
  show "resolvePresenceColor derive c cid
       = (case c of Some v \<Rightarrow> if is_hex_color v then v else derive cid | None \<Rightarrow> derive cid)"
    by (auto simp: resolvePresenceColor_def is_hex_color_def split: option.splits)
  show "is_hex_color v \<longleftrightarrow>
        length v = 7 \<and> v ! 0 = 0x23 \<and> (\<forall>k \<in> {1 ..< 7}. is_hex_digit (v ! k))"
    by (rule is_hex_color_iff)
qed

theorem profile_label_and_color_witness:
  "is_hex_color [0x23, 0x61, 0x42, 0x30, 0x39, 0x66, 0x46]
   \<and> is_hex_digit ([0x23, 0x61, 0x42, 0x30, 0x39, 0x66, 0x46] ! 6)
   \<and> displayNameRef (handleProfileSubmit [0x64] [0x63] (ex_page [] [] None)
        [0x20, 0x61, 0x20, 0x62, 0x20] [0x78] 1 2) = [0x61, 0x20, 0x62]"
proof -
  have a: "is_hex_color [0x23, 0x61, 0x42, 0x30, 0x39, 0x66, 0x46]" by code_simp
  have b: "\<not> is_js_space 0x61" by code_simp
  have c: "take 32 (js_trim [0x20, 0x61, 0x20, 0x62, 0x20]) = [0x61, 0x20, 0x62]" by code_simp
  have d: "is_hex_digit 0x46" by code_simp
  from profile_label_and_color [of "[0x64]" "[0x63]" "ex_page [] [] None"
      "[0x20, 0x61, 0x20, 0x62, 0x20]" "[0x78]" 1 2 undefined None
      "[0x23, 0x61, 0x42, 0x30, 0x39, 0x66, 0x46]"] a b c d
  show ?thesis by simp
qed

text \<open>
  Claim C7 as stated fails for the label: seventeen times U+1F600 is 17 code
  points, which truncation to 32 code points keeps, and 34 code units, of which
  the page keeps 32; and the page removes the white space around a label.
\<close>

theorem label_code_points_counterexample:
  "length (spread (emoji 17)) = 17
   \<and> truncate_code_points 32 (emoji 17) = emoji 17
   \<and> final_name (emoji 17) [0x63] = emoji 16
   \<and> final_name (emoji 17) [0x63] \<noteq> truncate_code_points 32 (emoji 17)
   \<and> final_name [0x20, 0x61] [0x63] = [0x61]
   \<and> truncate_code_points 32 [0x20, 0x61] = [0x20, 0x61]"
  by code_simp

subsection \<open>Heartbeat\<close>

text \<open>What one firing of the interval does, with the options of the edit page.\<close>

lemma tick_not_open:
  "readyState (socket hb) \<noteq> OPEN \<Longrightarrow> tick opts now now2 hb = hb"
  by (simp add: tick_def)

lemma tick_sends_only_when_open:
  "outbox (socket (tick opts now now2 hb)) \<noteq> outbox (socket hb)
   \<Longrightarrow> readyState (socket hb) = OPEN \<and> \<not> cancelled hb"
  by (auto simp: tick_def give_up_def ws_close_def split: if_splits)

lemma edit_page_tick:
  "interval_of edit_page_heartbeat = 5000
   \<and> (\<not> cancelled hb \<and> readyState (socket hb) = OPEN \<and> now - lastMsgAtRef (env hb) > 30000 \<longrightarrow>
        tick edit_page_heartbeat now now2 hb
          = hb\<lparr>cancelled := True, socket := (socket hb)\<lparr>readyState := CLOSING\<rparr>,
                env := (env hb)\<lparr>wsReadyRef := False\<rparr>\<rparr>)
   \<and> (\<not> cancelled hb \<and> readyState (socket hb) = OPEN \<and> now - lastMsgAtRef (env hb) \<le> 30000 \<longrightarrow>
        tick edit_page_heartbeat now now2 hb
          = hb\<lparr>socket := (socket hb)\<lparr>outbox := outbox (socket hb) @ [PingFrame now2]\<rparr>\<rparr>)
   \<and> (cancelled hb \<or> readyState (socket hb) \<noteq> OPEN \<longrightarrow>
        tick edit_page_heartbeat now now2 hb = hb)"
  by (auto simp: tick_def edit_page_heartbeat_def interval_of_def is_stale_def give_up_def
      ws_close_def ws_send_def call_onTimeout_def)

text \<open>
  Claim C9 says that the client sends a ping every 5 seconds while the socket
  is open. On a page that does not render, it does: six pings in 32 seconds.
  On a page that renders every 4 seconds the interval is restarted before it
  fires, and in the same 32 seconds no ping leaves the open socket.
\<close>

theorem heartbeat_starved_by_renders:
  "outbox (socket (beat (advance edit_page_heartbeat 32000
       (renders edit_page_heartbeat
          (mount edit_page_heartbeat 0 (ex_socket OPEN) (ex_page [] [] None))
          [4000, 8000, 12000, 16000, 20000, 24000, 28000, 32000])))) = []
   \<and> readyState (socket (beat (advance edit_page_heartbeat 32000
       (renders edit_page_heartbeat
          (mount edit_page_heartbeat 0 (ex_socket OPEN) (ex_page [] [] None))
          [4000, 8000, 12000, 16000, 20000, 24000, 28000, 32000])))) = OPEN
   \<and> outbox (socket (beat (advance edit_page_heartbeat 32000
       (mount edit_page_heartbeat 0 (ex_socket OPEN) (ex_page [] [] None)))))
     = [PingFrame 5000, PingFrame 10000, PingFrame 15000, PingFrame 20000, PingFrame 25000,
        PingFrame 30000]"
  by code_simp


section \<open>Properties of the queue's objects\<close>

subsection \<open>Reading after the store has grown\<close>

lemma lookup_Some: "lookup h a = Some x \<longleftrightarrow> a < length h \<and> h ! a = x"
  by (auto simp: lookup_def)

lemma lookup_prefix: "prefix h h' \<Longrightarrow> lookup h a = Some x \<Longrightarrow> lookup h' a = Some x"
  by (auto simp: lookup_def prefix_def nth_append split: if_splits)

lemma those_map_mono:
  "(\<And>a x. a \<in> set xs \<Longrightarrow> f a = Some x \<Longrightarrow> g a = Some x)
   \<Longrightarrow> those (map f xs) = Some ys \<Longrightarrow> those (map g xs) = Some ys"
proof (induction xs arbitrary: ys)
  case Nil
  then show ?case by simp
next
  case (Cons a xs)
  from Cons.prems(2) obtain y ys' where fa: "f a = Some y"
    and rest: "those (map f xs) = Some ys'" and ys: "ys = y # ys'"
    by (auto split: option.splits)
  from Cons.prems(1) fa have "g a = Some y" by simp
  moreover from Cons.IH [OF _ rest] Cons.prems(1) have "those (map g xs) = Some ys'" by simp
  ultimately show ?case by (simp add: ys)
qed

lemma those_map_Some: "those (map (\<lambda>k. Some (f k)) ks) = Some (map f ks)"
  by (induction ks) auto

lemma read_op_prefix: "prefix h h' \<Longrightarrow> read_op h a = Some x \<Longrightarrow> read_op h' a = Some x"
  by (auto simp: read_op_def split: option.splits Obj.splits dest: lookup_prefix)

lemma read_ops_prefix:
  assumes p: "prefix h h'" and r: "read_ops h a = Some os"
  shows "read_ops h' a = Some os"
proof -
  from r obtain xs where l: "lookup h a = Some (OArr xs)"
    and t: "those (map (read_op h) xs) = Some os"
    by (auto simp: read_ops_def split: option.splits Obj.splits)
  from t have "those (map (read_op h') xs) = Some os"
    by (rule those_map_mono [rotated]) (rule read_op_prefix [OF p])
  with lookup_prefix [OF p l] show ?thesis by (simp add: read_ops_def)
qed

lemma read_cursor_prefix:
  "prefix h h' \<Longrightarrow> read_cursor h r = Some c \<Longrightarrow> read_cursor h' r = Some c"
  by (auto simp: read_cursor_def split: option.splits Obj.splits dest: lookup_prefix)

lemma read_item_Some:
  "read_item h a = Some v \<longleftrightarrow>
     (\<exists>it os cb ca. lookup h a = Some (OItem it) \<and> read_ops h (o_ops it) = Some os
        \<and> read_cursor h (o_cursor_before it) = Some cb
        \<and> read_cursor h (o_cursor_after it) = Some ca
        \<and> v = \<lparr>op_id = o_op_id it, base_rev = o_base_rev it, ops = os,
                cursor_before = cb, cursor_after = ca, ts = o_ts it\<rparr>)"
  by (auto simp: read_item_def split: option.splits Obj.splits)

lemma read_item_prefix:
  assumes p: "prefix h h'" and r: "read_item h a = Some v"
  shows "read_item h' a = Some v"
proof -
  from r obtain it os cb ca where "lookup h a = Some (OItem it)"
    "read_ops h (o_ops it) = Some os" "read_cursor h (o_cursor_before it) = Some cb"
    "read_cursor h (o_cursor_after it) = Some ca"
    "v = \<lparr>op_id = o_op_id it, base_rev = o_base_rev it, ops = os,
                cursor_before = cb, cursor_after = ca, ts = o_ts it\<rparr>"
    unfolding read_item_Some by blast
  with p show ?thesis
    unfolding read_item_Some
    by (blast intro: lookup_prefix read_ops_prefix read_cursor_prefix)
qed

lemma read_items_Some:
  "read_items h a = Some vs \<longleftrightarrow>
     (\<exists>xs. lookup h a = Some (OArr xs) \<and> those (map (read_item h) xs) = Some vs)"
  by (auto simp: read_items_def split: option.splits Obj.splits)

lemma read_item_list_prefix:
  "prefix h h' \<Longrightarrow> those (map (read_item h) xs) = Some vs
   \<Longrightarrow> those (map (read_item h') xs) = Some vs"
proof -
  assume p: "prefix h h'" and t: "those (map (read_item h) xs) = Some vs"
  from t show ?thesis
    by (rule those_map_mono [rotated]) (rule read_item_prefix [OF p])
qed

lemma read_items_prefix:
  "prefix h h' \<Longrightarrow> read_items h a = Some vs \<Longrightarrow> read_items h' a = Some vs"
  unfolding read_items_Some by (blast intro: lookup_prefix read_item_list_prefix)

text \<open>What \<open>keeps\<close> gives.\<close>

lemma keeps_fresh:
  "keeps n hF H \<Longrightarrow> prefix h' hF \<Longrightarrow> n \<le> k \<Longrightarrow> k < length h' \<Longrightarrow> lookup H k = Some (h' ! k)"
  by (auto simp: keeps_def prefix_def nth_append)

lemma keeps_cursor:
  assumes k: "keeps n hF H" and p: "prefix h hF" and r: "read_cursor h r = Some c"
  shows "read_cursor H r = Some c"
proof (cases r)
  case None
  with r show ?thesis by (simp add: read_cursor_def)
next
  case (Some a)
  with r obtain cv where l: "lookup h a = Some (OCursor cv)" and c: "c = Some cv"
    by (auto simp: read_cursor_def split: option.splits Obj.splits)
  from lookup_prefix [OF p l] have "a < length hF" "hF ! a = OCursor cv"
    by (simp_all add: lookup_Some)
  with k have "lookup H a = Some (OCursor cv)"
    by (auto simp: keeps_def is_cursor_def)
  then show ?thesis by (simp add: read_cursor_def Some c)
qed

lemma keeps_refl: "keeps n h h"
  by (simp add: keeps_def lookup_def)

subsection \<open>Copies\<close>

lemma alloc_ops_prefix: "alloc_ops h os = (arr, h1) \<Longrightarrow> prefix h h1 \<and> length h \<le> length h1"
  by (auto simp: alloc_ops_def)

lemma map_nth_shift: "map (\<lambda>k. os ! (k - n)) [n ..< n + length os] = os"
  by (rule nth_equalityI) auto

lemma alloc_ops_read:
  assumes a: "alloc_ops h os = (arr, h1)" and p: "prefix h1 hF" and n: "n \<le> length h"
    and k: "keeps n hF H"
  shows "read_ops H arr = Some os"
proof -
  from a have arr: "arr = length h + length os"
    and h1: "h1 = h @ map OOp os @ [OArr [length h ..< length h + length os]]"
    by (auto simp: alloc_ops_def)
  have la: "lookup H arr = Some (OArr [length h ..< length h + length os])"
    using keeps_fresh [OF k p, of arr] n by (simp add: arr h1 nth_append)
  have "read_op H j = Some (os ! (j - length h))"
    if "j \<in> set [length h ..< length h + length os]" for j
  proof -
    from that have j: "length h \<le> j" "j < length h + length os" by simp_all
    then have "h1 ! j = OOp (os ! (j - length h))"
      by (simp add: h1 nth_append)
    moreover from keeps_fresh [OF k p, of j] j n have "lookup H j = Some (h1 ! j)"
      by (simp add: h1)
    ultimately show ?thesis by (simp add: read_op_def)
  qed
  then have "map (read_op H) [length h ..< length h + length os]
      = map (\<lambda>j. Some (os ! (j - length h))) [length h ..< length h + length os]"
    by (intro map_cong) auto
  then have "those (map (read_op H) [length h ..< length h + length os]) = Some os"
    by (simp only: those_map_Some map_nth_shift)
  with la show ?thesis by (simp add: read_ops_def)
qed

lemma copy_item_read:
  assumes c: "copy_item h a = Some (b, h2)" and r: "read_item h a = Some v"
    and p: "prefix h2 hF" and n: "n \<le> length h" and k: "keeps n hF H"
  shows "read_item H b = Some v" and "prefix h h2"
proof -
  from r obtain it os cb ca where l: "lookup h a = Some (OItem it)"
    and ro: "read_ops h (o_ops it) = Some os"
    and rb: "read_cursor h (o_cursor_before it) = Some cb"
    and ra: "read_cursor h (o_cursor_after it) = Some ca"
    and v: "v = \<lparr>op_id = o_op_id it, base_rev = o_base_rev it, ops = os,
                cursor_before = cb, cursor_after = ca, ts = o_ts it\<rparr>"
    unfolding read_item_Some by blast
  obtain arr h1 where al: "alloc_ops h os = (arr, h1)" by (cases "alloc_ops h os")
  from c l ro al have b: "b = length h1" and h2: "h2 = h1 @ [OItem (it\<lparr>o_ops := arr\<rparr>)]"
    by (auto simp: copy_item_def copy_ops_def)
  from alloc_ops_prefix [OF al] have p01: "prefix h h1" and l01: "length h \<le> length h1"
    by simp_all
  have p12: "prefix h1 h2" by (simp add: h2)
  from p01 p12 show p02: "prefix h h2" by (rule prefix_order.trans)
  from p12 p have p1F: "prefix h1 hF" by (rule prefix_order.trans)
  from p02 p have p0F: "prefix h hF" by (rule prefix_order.trans)
  have lb: "lookup H b = Some (OItem (it\<lparr>o_ops := arr\<rparr>))"
    using keeps_fresh [OF k p, of b] n l01 by (simp add: b h2)
  have "read_ops H arr = Some os"
    by (rule alloc_ops_read [OF al p1F n k])
  moreover have "read_cursor H (o_cursor_before it) = Some cb"
    by (rule keeps_cursor [OF k p0F rb])
  moreover have "read_cursor H (o_cursor_after it) = Some ca"
    by (rule keeps_cursor [OF k p0F ra])
  ultimately show "read_item H b = Some v"
    using lb by (simp add: read_item_def v)
qed

lemma copy_item_exists:
  assumes r: "read_item h a = Some v"
  shows "\<exists>b h2. copy_item h a = Some (b, h2)"
proof -
  from r obtain it os where "lookup h a = Some (OItem it)" "read_ops h (o_ops it) = Some os"
    unfolding read_item_Some by blast
  then show ?thesis
    by (cases "alloc_ops h os") (simp add: copy_item_def copy_ops_def)
qed

lemma copy_item_list_read:
  "copy_item_list h xs = Some (bs, h2) \<Longrightarrow> those (map (read_item h) xs) = Some vs
   \<Longrightarrow> prefix h2 hF \<Longrightarrow> n \<le> length h \<Longrightarrow> keeps n hF H
   \<Longrightarrow> those (map (read_item H) bs) = Some vs \<and> prefix h h2"
proof (induction xs arbitrary: h bs vs)
  case Nil
  then show ?case by simp
next
  case (Cons a xs)
  from Cons.prems(2) obtain v vs' where ra: "read_item h a = Some v"
    and rest: "those (map (read_item h) xs) = Some vs'" and vs: "vs = v # vs'"
    by (auto split: option.splits)
  from Cons.prems(1) obtain b h1 bs' where ca: "copy_item h a = Some (b, h1)"
    and cl: "copy_item_list h1 xs = Some (bs', h2)" and bs: "bs = b # bs'"
    by (auto split: option.splits)
  have p01: "prefix h h1"
    by (rule copy_item_read(2) [OF ca ra prefix_order.refl order.refl keeps_refl])
  then have l01: "length h \<le> length h1" by (rule prefix_length_le)
  from read_item_list_prefix [OF p01 rest]
  have rest1: "those (map (read_item h1) xs) = Some vs'" .
  from Cons.prems(4) l01 have n1: "n \<le> length h1" by simp
  from Cons.IH [OF cl rest1 Cons.prems(3) n1 Cons.prems(5)]
  have ih: "those (map (read_item H) bs') = Some vs'" and p12: "prefix h1 h2" by simp_all
  from p12 Cons.prems(3) have p1F: "prefix h1 hF" by (rule prefix_order.trans)
  have "read_item H b = Some v"
    by (rule copy_item_read(1) [OF ca ra p1F Cons.prems(4) Cons.prems(5)])
  with ih have "those (map (read_item H) bs) = Some vs" by (simp add: bs vs)
  moreover from p01 p12 have "prefix h h2" by (rule prefix_order.trans)
  ultimately show ?case by simp
qed

lemma copy_item_list_exists:
  "those (map (read_item h) xs) = Some vs \<Longrightarrow> \<exists>bs h2. copy_item_list h xs = Some (bs, h2)"
proof (induction xs arbitrary: h vs)
  case Nil
  then show ?case by simp
next
  case (Cons a xs)
  from Cons.prems obtain v vs' where ra: "read_item h a = Some v"
    and rest: "those (map (read_item h) xs) = Some vs'"
    by (auto split: option.splits)
  from copy_item_exists [OF ra] obtain b h1 where ca: "copy_item h a = Some (b, h1)" by blast
  have p01: "prefix h h1"
    by (rule copy_item_read(2) [OF ca ra prefix_order.refl order.refl keeps_refl])
  from Cons.IH [OF read_item_list_prefix [OF p01 rest]] ca show ?case by auto
qed

lemma copy_items_read:
  assumes c: "copy_items h a = Some (arr, h3)" and r: "read_items h a = Some vs"
    and p: "prefix h3 hF" and n: "n \<le> length h" and k: "keeps n hF H"
  shows "read_items H arr = Some vs" and "prefix h h3"
proof -
  from r obtain xs where l: "lookup h a = Some (OArr xs)"
    and t: "those (map (read_item h) xs) = Some vs"
    unfolding read_items_Some by blast
  from c l obtain bs h2 where cl: "copy_item_list h xs = Some (bs, h2)"
    and arr: "arr = length h2" and h3: "h3 = h2 @ [OArr bs]"
    by (auto simp: copy_items_def split: option.splits)
  have p23: "prefix h2 h3" by (simp add: h3)
  from p23 p have p2F: "prefix h2 hF" by (rule prefix_order.trans)
  from copy_item_list_read [OF cl t p2F n k]
  have rd: "those (map (read_item H) bs) = Some vs" and p02: "prefix h h2" by simp_all
  from p02 p23 show "prefix h h3" by (rule prefix_order.trans)
  from p02 have "length h \<le> length h2" by (rule prefix_length_le)
  with keeps_fresh [OF k p, of arr] n have "lookup H arr = Some (OArr bs)"
    by (simp add: arr h3)
  with rd show "read_items H arr = Some vs" by (simp add: read_items_def)
qed

lemma copy_items_exists:
  assumes r: "read_items h a = Some vs"
  shows "\<exists>arr h3. copy_items h a = Some (arr, h3)"
proof -
  from r obtain xs where l: "lookup h a = Some (OArr xs)"
    and t: "those (map (read_item h) xs) = Some vs"
    unfolding read_items_Some by blast
  from copy_item_list_exists [OF t] l show ?thesis
    by (auto simp: copy_items_def)
qed

lemma copy_item_prefix: "copy_item h a = Some (b, h2) \<Longrightarrow> prefix h h2"
  by (auto simp: copy_item_def copy_ops_def alloc_ops_def split: option.splits Obj.splits)

lemma copy_item_list_prefix: "copy_item_list h xs = Some (bs, h2) \<Longrightarrow> prefix h h2"
proof (induction xs arbitrary: h bs)
  case Nil
  then show ?case by simp
next
  case (Cons a xs)
  from Cons.prems obtain b h1 bs' where ca: "copy_item h a = Some (b, h1)"
    and cl: "copy_item_list h1 xs = Some (bs', h2)"
    by (auto split: option.splits)
  from copy_item_prefix [OF ca] Cons.IH [OF cl] show ?case by (rule prefix_order.trans)
qed

lemma copy_items_shape:
  assumes "copy_items h a = Some (b, h3)"
  shows "prefix h h3 \<and> length h \<le> b \<and> (\<exists>bs. lookup h3 b = Some (OArr bs))"
proof -
  from assms obtain xs bs h2 where cl: "copy_item_list h xs = Some (bs, h2)"
    and b: "b = length h2" and h3: "h3 = h2 @ [OArr bs]"
    by (auto simp: copy_items_def split: option.splits Obj.splits)
  from copy_item_list_prefix [OF cl] have p: "prefix h h2" .
  then have "length h \<le> length h2" by (rule prefix_length_le)
  moreover from p have "prefix h h3" unfolding h3 by (rule prefix_prefix)
  ultimately show ?thesis by (auto simp: b h3 lookup_def)
qed

lemma keeps_prefix: "keeps n h1 H \<Longrightarrow> prefix H H' \<Longrightarrow> keeps n h1 H'"
  by (auto simp: keeps_def dest: lookup_prefix)

lemma keeps_update:
  assumes k: "keeps n h1 H" and a: "a < n \<or> length h1 \<le> a"
    and arr: "lookup H a = Some (OArr xs)"
  shows "keeps n h1 (H[a := x])"
  unfolding keeps_def
proof (intro ballI impI)
  fix j assume j: "j \<in> {0 ..< length h1}" and pr: "n \<le> j \<or> is_cursor (h1 ! j)"
  with k have l: "lookup H j = Some (h1 ! j)" by (auto simp: keeps_def)
  have "j \<noteq> a"
  proof
    assume "j = a"
    with j a pr l arr show False by (auto simp: is_cursor_def split: Obj.splits)
  qed
  with l show "lookup (H[a := x]) j = Some (h1 ! j)"
    by (auto simp: lookup_def split: if_splits)
qed

lemma st_filter_shape:
  "st_filter H qo i = Some (qo', H') \<Longrightarrow>
   prefix H H' \<and> q_ref qo' = length H \<and> (\<exists>xs. lookup H' (q_ref qo') = Some (OArr xs))"
  by (auto simp: st_filter_def lookup_def split: option.splits Obj.splits if_splits)

lemma st_ack_shape:
  "st_ack H qo opts = Some (qo', H') \<Longrightarrow>
   (H' = H \<and> q_ref qo' = q_ref qo)
   \<or> (prefix H H' \<and> q_ref qo' = length H \<and> (\<exists>xs. lookup H' (q_ref qo') = Some (OArr xs)))"
  by (auto simp: st_ack_def Let_def split: option.splits if_splits dest!: st_filter_shape)

lemma st_replace_shape:
  "st_replace H qo r = Some (qo', H') \<Longrightarrow>
   prefix H H' \<and> length H \<le> q_ref qo' \<and> (\<exists>xs. lookup H' (q_ref qo') = Some (OArr xs))"
proof (cases r)
  case RAbsent
  assume "st_replace H qo r = Some (qo', H')"
  with RAbsent show ?thesis by (auto simp: lookup_def)
next
  case (RArray a)
  assume "st_replace H qo r = Some (qo', H')"
  with RArray show ?thesis by (auto dest!: copy_items_shape)
next
  case (RSnapshot s)
  assume c: "st_replace H qo r = Some (qo', H')"
  show ?thesis
  proof (cases "s_items s")
    case (Some a)
    with c RSnapshot show ?thesis by (auto simp: Let_def dest!: copy_items_shape)
  next
    case None
    with c RSnapshot obtain b where "copy_items (H @ [OArr []]) (length H) = Some (b, H')"
      and "q_ref qo' = b"
      by (auto simp: Let_def)
    with copy_items_shape [of "H @ [OArr []]" "length H" b H'] show ?thesis
      by (auto simp: prefix_def)
  qed
qed

lemma st_call_inv:
  assumes inv: "queue_inv n h1 H qo" and c: "st_call H qo call = Some (qo', H')"
  shows "queue_inv n h1 H' qo'"
proof (cases call)
  case (CallEnqueue e)
  from inv obtain xs where arr: "lookup H (q_ref qo) = Some (OArr xs)"
    by (auto simp: queue_inv_def)
  with c CallEnqueue have H': "H' = H[q_ref qo := OArr (xs @ [e])]" and qo': "qo' = qo"
    by (auto simp: st_enqueue_def)
  from inv have "keeps n h1 H'" unfolding H'
    by (intro keeps_update [OF _ _ arr]) (auto simp: queue_inv_def)
  moreover from arr have "q_ref qo < length H" by (simp add: lookup_Some)
  ultimately show ?thesis
    using inv by (auto simp: queue_inv_def H' qo' lookup_def)
next
  case (CallAck opts)
  with c have "st_ack H qo opts = Some (qo', H')" by simp
  from st_ack_shape [OF this] inv show ?thesis
    by (auto simp: queue_inv_def dest: keeps_prefix prefix_length_le)
next
  case (CallReplace r)
  with c have "st_replace H qo r = Some (qo', H')" by simp
  from st_replace_shape [OF this] inv show ?thesis
    by (auto simp: queue_inv_def dest: keeps_prefix prefix_length_le)
next
  case (CallSetLatest m)
  with c inv show ?thesis by (auto simp: queue_inv_def split: if_splits)
qed

lemma st_calls_inv:
  "queue_inv n h1 H qo \<Longrightarrow> st_calls H qo cs = Some (qo', H') \<Longrightarrow> queue_inv n h1 H' qo'"
proof (induction cs arbitrary: H qo)
  case Nil
  then show ?case by simp
next
  case (Cons c cs)
  from Cons.prems(2) obtain qo1 H1 where s: "st_call H qo c = Some (qo1, H1)"
    and r: "st_calls H1 qo1 cs = Some (qo', H')"
    by (auto split: option.splits)
  from Cons.IH [OF st_call_inv [OF Cons.prems(1) s] r] show ?case .
qed

subsection \<open>The queue as a value\<close>

text \<open>\<open>ack\<close> on the objects does to the value of the queue what \<open>ack\<close> on values does.\<close>

lemma item_id_of_read:
  "read_item h a = Some v \<Longrightarrow> item_id h a = Some (a, op_id v)"
  unfolding read_item_Some by (auto simp: item_id_def)

lemma filter_items_read:
  "those (map (read_item h) xs) = Some vs \<Longrightarrow>
   \<exists>ps. those (map (item_id h) xs) = Some ps
      \<and> those (map (read_item h) (map fst (filter (\<lambda>(a, k). k \<noteq> i) ps)))
          = Some (filter (\<lambda>entry. op_id entry \<noteq> i) vs)"
proof (induction xs arbitrary: vs)
  case Nil
  then show ?case by simp
next
  case (Cons a xs)
  from Cons.prems obtain v vs' where ra: "read_item h a = Some v"
    and rest: "those (map (read_item h) xs) = Some vs'" and vs: "vs = v # vs'"
    by (auto split: option.splits)
  from Cons.IH [OF rest] obtain ps where ps: "those (map (item_id h) xs) = Some ps"
    and fl: "those (map (read_item h) (map fst (filter (\<lambda>(a, k). k \<noteq> i) ps)))
          = Some (filter (\<lambda>entry. op_id entry \<noteq> i) vs')"
    by blast
  from item_id_of_read [OF ra] ps
  have "those (map (item_id h) (a # xs)) = Some ((a, op_id v) # ps)" by simp
  moreover have "those (map (read_item h)
        (map fst (filter (\<lambda>(a, k). k \<noteq> i) ((a, op_id v) # ps))))
      = Some (filter (\<lambda>entry. op_id entry \<noteq> i) vs)"
    using ra fl by (simp add: vs)
  ultimately show ?case by blast
qed

lemma bump_refines:
  "abs_queue h1 qo1 = Some v1 \<Longrightarrow>
   abs_queue h1 (case s of
                   Some n \<Rightarrow> if n > q_latestAck qo1 then qo1\<lparr>q_latestAck := n\<rparr> else qo1
                 | None \<Rightarrow> qo1)
     = Some (case s of
               Some n \<Rightarrow> if n > latestAck v1 then v1\<lparr>latestAck := n\<rparr> else v1
             | None \<Rightarrow> v1)"
  by (auto simp: abs_queue_def split: option.splits)

lemma st_ack_refines:
  assumes a: "abs_queue h qo = Some v"
  shows "\<exists>qo' h'. st_ack h qo opts = Some (qo', h') \<and> abs_queue h' qo' = Some (ack v opts)"
proof -
  from a obtain xs where l: "lookup h (q_ref qo) = Some (OArr xs)"
    and t: "those (map (read_item h) xs) = Some (q v)" and la: "latestAck v = q_latestAck qo"
    by (auto simp: abs_queue_def read_items_Some)
  show ?thesis
  proof (cases "\<exists>i. opId opts = Some i \<and> i \<noteq> []")
    case True
    then obtain i where i: "opId opts = Some i" "i \<noteq> []" by blast
    from filter_items_read [OF t, of i] obtain ps where ps: "those (map (item_id h) xs) = Some ps"
      and fl: "those (map (read_item h) (map fst (filter (\<lambda>(a, k). k \<noteq> i) ps)))
          = Some (filter (\<lambda>entry. op_id entry \<noteq> i) (q v))"
      by blast
    define h1 where "h1 = h @ [OArr (map fst (filter (\<lambda>(a, k). k \<noteq> i) ps))]"
    have f: "st_filter h qo i = Some (qo\<lparr>q_ref := length h\<rparr>, h1)"
      by (simp add: st_filter_def l ps h1_def)
    have p: "prefix h h1" by (simp add: h1_def)
    from read_item_list_prefix [OF p fl]
    have "read_items h1 (length h) = Some (filter (\<lambda>entry. op_id entry \<noteq> i) (q v))"
      by (simp add: read_items_def lookup_def h1_def)
    then have "abs_queue h1 (qo\<lparr>q_ref := length h\<rparr>)
        = Some (v\<lparr>q := filter (\<lambda>entry. op_id entry \<noteq> i) (q v)\<rparr>)"
      using la by (simp add: abs_queue_def)
    from bump_refines [OF this, of "serverSeq opts"] f i show ?thesis
      by (simp add: st_ack_def ack_def Let_def)
  next
    case False
    then have r: "(case opId opts of
                 Some i \<Rightarrow> if i \<noteq> [] then st_filter h qo i else Some (qo, h)
               | None \<Rightarrow> Some (qo, h)) = Some (qo, h)"
      and r': "(case opId opts of
                   Some i \<Rightarrow> if i \<noteq> [] then v\<lparr>q := filter (\<lambda>entry. op_id entry \<noteq> i) (q v)\<rparr>
                             else v
                 | None \<Rightarrow> v) = v"
      by (auto split: option.splits)
    from bump_refines [OF a, of "serverSeq opts"] show ?thesis
      by (simp add: st_ack_def ack_def Let_def r r')
  qed
qed

subsection \<open>Snapshot and replace\<close>

text \<open>The snapshot of the example store.\<close>

lemma ex_snapshot_value:
  "st_snapshot ex_store ex_queue_obj
     = Some (\<lparr>s_latestAck = Some 5, s_items = Some 8\<rparr>,
             ex_store @ [OOp (Insert 0 [0x61]), OArr [5],
                         OItem \<lparr>o_op_id = [0x70], o_base_rev = 2, o_ops = 6,
                                o_cursor_before = None, o_cursor_after = Some 0,
                                o_ts = Some 9\<rparr>,
                         OArr [7]])"
  by code_simp

text \<open>
  Claim C10. If the queue reads as the value \<open>v\<close>, then \<open>snapshot()\<close> succeeds and
  reads as the snapshot of \<open>v\<close>; \<open>replace\<close> of that snapshot gives a queue that
  reads as \<open>v\<close> again: the same entries in the same order, with their
  identifiers, revisions, operations, cursors and time stamps, and the same
  latest server sequence. Afterwards the snapshot reads the same in every store
  that keeps the objects the snapshot allocated and the cursor objects, and so
  after any sequence of \<open>enqueue\<close>, \<open>ack\<close>, \<open>replace\<close> and \<open>setLatestServerSeq\<close> on
  the queue.
\<close>

theorem snapshot_replace_roundtrip:
  assumes a: "abs_queue h qo = Some v"
  shows "\<exists>s h1. st_snapshot h qo = Some (s, h1)
          \<and> abs_snapshot h1 s = Some (snapshot v)
          \<and> (\<exists>qo2 h2. st_replace h1 qo (RSnapshot s) = Some (qo2, h2)
                \<and> abs_queue h2 qo2 = Some v)
          \<and> replace v (SnapshotObj (snapshot v)) = v
          \<and> (\<forall>H. keeps (length h) h1 H \<longrightarrow> abs_snapshot H s = Some (snapshot v))
          \<and> (\<forall>cs qo' H. st_calls h1 qo cs = Some (qo', H) \<longrightarrow>
                abs_snapshot H s = Some (snapshot v))"
proof -
  from a have r: "read_items h (q_ref qo) = Some (q v)" and la: "latestAck v = q_latestAck qo"
    by (auto simp: abs_queue_def)
  from copy_items_exists [OF r] obtain arr h1 where c: "copy_items h (q_ref qo) = Some (arr, h1)"
    by blast
  define s where "s = \<lparr>s_latestAck = Some (q_latestAck qo), s_items = Some arr\<rparr>"
  have snap: "st_snapshot h qo = Some (s, h1)"
    by (simp add: st_snapshot_def c s_def)
  have iso: "abs_snapshot H s = Some (snapshot v)" if "keeps (length h) h1 H" for H
  proof -
    from copy_items_read(1) [OF c r prefix_order.refl order.refl that]
    show ?thesis by (simp add: abs_snapshot_def s_def snapshot_def la)
  qed
  have p01: "prefix h h1"
    by (rule copy_items_read(2) [OF c r prefix_order.refl order.refl keeps_refl])
  have r1: "read_items h1 arr = Some (q v)"
    by (rule copy_items_read(1) [OF c r prefix_order.refl order.refl keeps_refl])
  from copy_items_exists [OF r1] obtain b h2 where c2: "copy_items h1 arr = Some (b, h2)"
    by blast
  have r2: "read_items h2 b = Some (q v)"
    by (rule copy_items_read(1) [OF c2 r1 prefix_order.refl order.refl keeps_refl])
  have rep: "st_replace h1 qo (RSnapshot s) = Some (\<lparr>q_ref = b, q_latestAck = q_latestAck qo\<rparr>, h2)"
    by (simp add: s_def c2)
  have restored: "abs_queue h2 \<lparr>q_ref = b, q_latestAck = q_latestAck qo\<rparr> = Some v"
    using r2 la by (simp add: abs_queue_def)
  from r obtain xs where "lookup h (q_ref qo) = Some (OArr xs)"
    unfolding read_items_Some by blast
  then have lq: "lookup h1 (q_ref qo) = Some (OArr xs)" and qlt: "q_ref qo < length h"
    using lookup_prefix [OF p01] by (simp_all add: lookup_Some)
  have inv: "queue_inv (length h) h1 h1 qo"
    using lq qlt by (auto simp: queue_inv_def keeps_refl)
  have calls: "abs_snapshot H s = Some (snapshot v)"
    if "st_calls h1 qo cs = Some (qo', H)" for cs qo' H
  proof -
    from st_calls_inv [OF inv that] have "keeps (length h) h1 H"
      by (simp add: queue_inv_def)
    then show ?thesis by (rule iso)
  qed
  have pure: "replace v (SnapshotObj (snapshot v)) = v"
    by (simp add: snapshot_def)
  from snap iso [OF keeps_refl] rep restored pure iso calls show ?thesis by blast
qed

theorem snapshot_replace_roundtrip_witness:
  "abs_queue ex_store ex_queue_obj = Some ex_queue
   \<and> (\<exists>s h1 qo' H. st_snapshot ex_store ex_queue_obj = Some (s, h1)
         \<and> st_calls h1 ex_queue_obj
              [CallEnqueue 3, CallAck \<lparr>opId = Some [0x70], serverSeq = Some 6\<rparr>] = Some (qo', H)
         \<and> abs_queue H qo' = Some \<lparr>q = [], latestAck = 6\<rparr>
         \<and> abs_snapshot H s = Some (snapshot ex_queue))"
proof -
  have a: "abs_queue ex_store ex_queue_obj = Some ex_queue" by code_simp
  from snapshot_replace_roundtrip [OF a] obtain s h1
    where s: "st_snapshot ex_store ex_queue_obj = Some (s, h1)"
      and c: "\<And>cs qo' H. st_calls h1 ex_queue_obj cs = Some (qo', H)
                \<Longrightarrow> abs_snapshot H s = Some (snapshot ex_queue)"
    by blast
  from s have h1: "h1 = ex_store @ [OOp (Insert 0 [0x61]), OArr [5],
                         OItem \<lparr>o_op_id = [0x70], o_base_rev = 2, o_ops = 6,
                                o_cursor_before = None, o_cursor_after = Some 0,
                                o_ts = Some 9\<rparr>,
                         OArr [7]]"
    by (simp add: ex_snapshot_value)
  have "case st_calls (ex_store @ [OOp (Insert 0 [0x61]), OArr [5],
                         OItem \<lparr>o_op_id = [0x70], o_base_rev = 2, o_ops = 6,
                                o_cursor_before = None, o_cursor_after = Some 0,
                                o_ts = Some 9\<rparr>,
                         OArr [7]]) ex_queue_obj
              [CallEnqueue 3, CallAck \<lparr>opId = Some [0x70], serverSeq = Some 6\<rparr>] of
          Some (qo', H) \<Rightarrow> abs_queue H qo' = Some \<lparr>q = [], latestAck = 6\<rparr>
        | None \<Rightarrow> False"
    by code_simp
  then obtain qo' H where d: "st_calls h1 ex_queue_obj
              [CallEnqueue 3, CallAck \<lparr>opId = Some [0x70], serverSeq = Some 6\<rparr>] = Some (qo', H)"
    and e: "abs_queue H qo' = Some \<lparr>q = [], latestAck = 6\<rparr>"
    unfolding h1 by (auto split: option.splits)
  from c [OF d] a s d e show ?thesis by blast
qed

end
